theory Spec2Isabelle
  imports
    Main
    "HOL-Library.AList"
    "HOL-Library.Char_ord"
    "HOL-Library.List_Lexorder"
    "HOL-Library.Product_Lexorder"
    "HOL-Library.Multiset"
begin

section \<open>Mission Control: the task model\<close>

text \<open>
  The embedding follows \<^verbatim>\<open>packages/mission-control/src/mission_control.py\<close> and the
  \<^verbatim>\<open>handle_delete_task\<close> handler of \<^verbatim>\<open>server.py\<close>. Python strings are \<^typ>\<open>string\<close>,
  compared lexicographically by character code as Python's \<^verbatim>\<open>str\<close> is; Python's unbounded
  integers are \<^typ>\<open>int\<close>.
\<close>

datatype TaskStatus = TODO | IN_PROGRESS | BLOCKED | DONE

record GitMetadata =
  branch :: string
  commit_hash :: string
  created_at :: string
  updated_at :: string

text \<open>The field \<^verbatim>\<open>id\<close> of the source is \<open>task_id\<close> here (\<open>id\<close> is the identity of HOL).\<close>

record Task =
  task_id :: string
  title :: string
  description :: string
  status :: TaskStatus
  depends_on :: "string list"
  blocked_by :: "string list"
  tags :: "string list"
  priority :: int
  metadata :: GitMetadata

text \<open>
  What the program reads from outside itself: the answers of the git commands, the clock of
  \<^verbatim>\<open>datetime.now().isoformat()\<close>, and the six hexadecimal digits that
  \<^verbatim>\<open>hashlib.sha256(title + str(time.time_ns())).hexdigest()[:6]\<close> yields for a title (the
  nanosecond clock is folded into the function). The last field is the order in which
  this Python process iterates over \<^verbatim>\<open>set(xs)\<close>, which the interpreter's string hashing
  fixes and the program does not control.
\<close>

record Env =
  get_current_branch :: string
  get_current_commit :: string
  isoformat_now :: string
  sha256_hex6 :: "string \<Rightarrow> string"
  set_iteration :: "string list \<Rightarrow> string list"

text \<open>Whatever the order, iterating over \<^verbatim>\<open>set(xs)\<close> yields each member of \<open>xs\<close> once.\<close>

definition iterates_sets :: "Env \<Rightarrow> bool" where
  "iterates_sets env \<longleftrightarrow>
     (\<forall>xs. set (set_iteration env xs) = set xs \<and> distinct (set_iteration env xs))"

subsection \<open>Construction of a Task (the pydantic model)\<close>

text \<open>\<^verbatim>\<open>generate_id_if_empty\<close>: the validator that runs after the field checks.\<close>

definition generate_id_if_empty :: "Env \<Rightarrow> Task \<Rightarrow> Task" where
  "generate_id_if_empty env t =
     (if task_id t = [] then t\<lparr>task_id := ''m-'' @ sha256_hex6 env (title t)\<rparr> else t)"

text \<open>
  \<^verbatim>\<open>Task(**record)\<close> on a record whose values have the types of the fields: the only field
  constraint is \<^verbatim>\<open>priority: Field(ge=1, le=10)\<close>; a violation raises, which is \<open>None\<close>.
\<close>

definition Task_init :: "Env \<Rightarrow> Task \<Rightarrow> Task option" where
  "Task_init env r =
     (if priority r < 1 \<or> 10 < priority r then None
      else Some (generate_id_if_empty env r))"

subsection \<open>TaskStorage: the two JSONL files\<close>

text \<open>
  A line of a JSONL file is either a line from which no Task can be built at all
  (\<^verbatim>\<open>json.loads\<close> fails on it, or a key is missing or has a value of the wrong type), or a JSON
  object that carries a value of the right type for every Task field. The second kind is
  still subject to the checks of \<open>Task_init\<close> when it is loaded.
\<close>

datatype jsonl_line = Unreadable | Object Task

record TaskStorage =
  tasks_file :: "jsonl_line list"
  archive_file :: "jsonl_line list"

text \<open>
  \<^verbatim>\<open>load_all_tasks\<close>: \<^verbatim>\<open>_read_jsonl\<close> followed by \<^verbatim>\<open>Task(**record)\<close>; both loops skip what
  they cannot read (\<^verbatim>\<open>continue\<close>).
\<close>

primrec load_lines :: "Env \<Rightarrow> jsonl_line list \<Rightarrow> Task list" where
  "load_lines env [] = []"
| "load_lines env (l # ls) =
     (case l of
        Unreadable \<Rightarrow> load_lines env ls
      | Object r \<Rightarrow>
          (case Task_init env r of
             None \<Rightarrow> load_lines env ls
           | Some t \<Rightarrow> t # load_lines env ls))"

definition load_all_tasks :: "Env \<Rightarrow> TaskStorage \<Rightarrow> Task list" where
  "load_all_tasks env st = load_lines env (tasks_file st)"

text \<open>The loop of \<^verbatim>\<open>load_task\<close>: the first task with the id, or \<open>None\<close>.\<close>

primrec find_task :: "Task list \<Rightarrow> string \<Rightarrow> Task option" where
  "find_task [] i = None"
| "find_task (t # ts) i = (if task_id t = i then Some t else find_task ts i)"

definition load_task :: "Env \<Rightarrow> TaskStorage \<Rightarrow> string \<Rightarrow> Task option" where
  "load_task env st i = find_task (load_all_tasks env st) i"

text \<open>The first three assignments of \<^verbatim>\<open>save_task\<close>.\<close>

definition update_git_metadata :: "Env \<Rightarrow> Task \<Rightarrow> Task" where
  "update_git_metadata env t =
     t\<lparr>metadata := (metadata t)\<lparr>branch := get_current_branch env,
                                commit_hash := get_current_commit env,
                                updated_at := isoformat_now env\<rparr>\<rparr>"

text \<open>
  The \<^verbatim>\<open>for i, existing in enumerate(tasks)\<close> loop of \<^verbatim>\<open>save_task\<close> with its \<^verbatim>\<open>break\<close>, and the
  \<^verbatim>\<open>append\<close> when nothing was found.
\<close>

primrec find_and_update :: "Task list \<Rightarrow> Task \<Rightarrow> Task list" where
  "find_and_update [] t = [t]"
| "find_and_update (e # es) t =
     (if task_id e = task_id t then t # es else e # find_and_update es t)"

text \<open>\<^verbatim>\<open>_write_jsonl(self.tasks_file, [t.model_dump() for t in tasks])\<close>.\<close>

definition write_tasks :: "TaskStorage \<Rightarrow> Task list \<Rightarrow> TaskStorage" where
  "write_tasks st ts = st\<lparr>tasks_file := map Object ts\<rparr>"

text \<open>\<^verbatim>\<open>save_task\<close> returns the new storage and the task it was given, with fresh metadata.\<close>

definition save_task :: "Env \<Rightarrow> TaskStorage \<Rightarrow> Task \<Rightarrow> TaskStorage \<times> Task" where
  "save_task env st task =
     (let task' = update_git_metadata env task;
          tasks = load_all_tasks env st
      in (write_tasks st (find_and_update tasks task'), task'))"

definition delete_task :: "Env \<Rightarrow> TaskStorage \<Rightarrow> string \<Rightarrow> TaskStorage \<times> bool" where
  "delete_task env st i =
     (let tasks = load_all_tasks env st;
          original_count = length tasks;
          tasks' = filter (\<lambda>t. task_id t \<noteq> i) tasks
      in if length tasks' < original_count then (write_tasks st tasks', True)
         else (st, False))"

definition archive_task :: "Env \<Rightarrow> TaskStorage \<Rightarrow> string \<Rightarrow> TaskStorage \<times> bool" where
  "archive_task env st i =
     (case load_task env st i of
        None \<Rightarrow> (st, False)
      | Some task \<Rightarrow>
          delete_task env (st\<lparr>archive_file := archive_file st @ [Object task]\<rparr>) i)"

text \<open>
  A Task object is valid when it is one that the constructor can have built: the priority
  is within its bounds and the id is not empty.
\<close>

definition valid_task :: "Task \<Rightarrow> bool" where
  "valid_task t \<longleftrightarrow> 1 \<le> priority t \<and> priority t \<le> 10 \<and> task_id t \<noteq> []"

subsection \<open>DependencyGraph\<close>

text \<open>
  A Python \<^verbatim>\<open>dict\<close> is an association list in insertion order; \<open>AList.update\<close> is the
  assignment \<^verbatim>\<open>d[k] = v\<close> (a key already present keeps its place, a new key goes last) and
  \<open>map_of\<close> is \<^verbatim>\<open>d.get(k)\<close>. \<^verbatim>\<open>_build_graph\<close> makes the two comprehensions
  \<^verbatim>\<open>{t.id: t for t in tasks}\<close> and \<^verbatim>\<open>{t.id: set(t.depends_on) for t in tasks}\<close>; a value of the
  second is kept as the list in which the set is iterated.
\<close>

definition build_task_dict :: "Task list \<Rightarrow> (string \<times> Task) list" where
  "build_task_dict tasks = foldl (\<lambda>d t. AList.update (task_id t) t d) [] tasks"

definition build_adj :: "Env \<Rightarrow> Task list \<Rightarrow> (string \<times> string list) list" where
  "build_adj env tasks =
     foldl (\<lambda>d t. AList.update (task_id t) (set_iteration env (depends_on t)) d) [] tasks"

definition build_graph ::
  "Env \<Rightarrow> TaskStorage \<Rightarrow> (string \<times> Task) list \<times> (string \<times> string list) list" where
  "build_graph env st =
     (let tasks = load_all_tasks env st in (build_task_dict tasks, build_adj env tasks))"

text \<open>\<^verbatim>\<open>k in d\<close> for a dict \<open>d\<close>.\<close>

definition in_dict :: "'k \<Rightarrow> ('k \<times> 'v) list \<Rightarrow> bool" where
  "in_dict k d \<longleftrightarrow> k \<in> fst ` set d"

text \<open>\<^verbatim>\<open>adj.get(node, set())\<close>.\<close>

definition adj_get :: "(string \<times> string list) list \<Rightarrow> string \<Rightarrow> string list" where
  "adj_get adj node = (case map_of adj node of None \<Rightarrow> [] | Some ds \<Rightarrow> ds)"

text \<open>
  The inner loop of \<^verbatim>\<open>get_ready_tasks\<close> over \<^verbatim>\<open>task.depends_on\<close>, on the pair
  \<^verbatim>\<open>(all_deps_done, blocking)\<close>.
\<close>

fun check_deps ::
  "(string \<times> Task) list \<Rightarrow> string list \<Rightarrow> bool \<times> string list \<Rightarrow> bool \<times> string list" where
  "check_deps task_dict [] acc = acc"
| "check_deps task_dict (dep_id # deps) (all_deps_done, blocking) =
     (case map_of task_dict dep_id of
        None \<Rightarrow> check_deps task_dict deps (False, blocking @ [dep_id])
      | Some dep_task \<Rightarrow>
          if status dep_task \<noteq> DONE
          then check_deps task_dict deps (False, blocking @ [dep_id])
          else check_deps task_dict deps (all_deps_done, blocking))"

text \<open>
  The outer loop over \<^verbatim>\<open>task_dict.items()\<close>. The task objects are shared with the dict, so
  the assignment \<^verbatim>\<open>task.blocked_by = blocking\<close> is an update of the dict's value; no object is
  touched before its own turn, so the items still to come are those of the dict at the
  start. The state is the dict and the list \<^verbatim>\<open>ready\<close>.
\<close>

fun ready_loop ::
  "(string \<times> Task) list \<Rightarrow> (string \<times> Task) list \<times> Task list \<Rightarrow>
   (string \<times> Task) list \<times> Task list" where
  "ready_loop [] s = s"
| "ready_loop ((k, task) # items) (task_dict, ready) =
     (if status task \<noteq> TODO then ready_loop items (task_dict, ready)
      else
        (case check_deps task_dict (depends_on task) (True, []) of
           (all_deps_done, blocking) \<Rightarrow>
             if all_deps_done then ready_loop items (task_dict, ready @ [task])
             else ready_loop items
                    (AList.update k (task\<lparr>blocked_by := blocking\<rparr>) task_dict, ready)))"

text \<open>
  \<^verbatim>\<open>ready.sort(key=lambda t: (-t.priority, t.metadata.created_at))\<close>: Python's sort is
  stable, as \<open>sort_key\<close> is.
\<close>

definition ready_key :: "Task \<Rightarrow> int \<times> string" where
  "ready_key t = (- priority t, created_at (metadata t))"

text \<open>
  \<^verbatim>\<open>get_ready_tasks\<close>, together with the dict as the loop leaves it (the function itself
  returns the sorted list only).
\<close>

definition get_ready_tasks_run ::
  "Env \<Rightarrow> TaskStorage \<Rightarrow> (string \<times> Task) list \<times> Task list" where
  "get_ready_tasks_run env st =
     (case build_graph env st of
        (task_dict, adj) \<Rightarrow>
          (case ready_loop task_dict (task_dict, []) of
             (task_dict', ready) \<Rightarrow> (task_dict', sort_key ready_key ready)))"

definition get_ready_tasks :: "Env \<Rightarrow> TaskStorage \<Rightarrow> Task list" where
  "get_ready_tasks env st = snd (get_ready_tasks_run env st)"

text \<open>\<^verbatim>\<open>get_dependents\<close>: the values of the dict whose \<^verbatim>\<open>depends_on\<close> holds the id.\<close>

definition get_dependents :: "Env \<Rightarrow> TaskStorage \<Rightarrow> string \<Rightarrow> Task list" where
  "get_dependents env st i =
     (case build_graph env st of
        (task_dict, adj) \<Rightarrow> filter (\<lambda>task. i \<in> set (depends_on task)) (map snd task_dict))"

text \<open>
  The exceptions that the code can raise: the three of the graph code, and the one of the
  Task constructor.
\<close>

datatype exn = KeyError | ValueError | IndexError | ValidationError

text \<open>
  \<^verbatim>\<open>get_dependency_chain\<close>. The closure \<^verbatim>\<open>dfs\<close> works on the set \<^verbatim>\<open>visited\<close> and the list
  \<^verbatim>\<open>chain\<close>; \<open>dfs_chain_deps\<close> is its \<^verbatim>\<open>for dep_id in adj.get(node, set())\<close> loop. The
  subscript \<^verbatim>\<open>task_dict[node]\<close> raises \<open>KeyError\<close> on a key that is not there.
\<close>

function dfs_chain ::
  "(string \<times> Task) list \<Rightarrow> (string \<times> string list) list \<Rightarrow> string \<Rightarrow>
   string set \<times> Task list \<Rightarrow> exn + string set \<times> Task list"
and dfs_chain_deps ::
  "(string \<times> Task) list \<Rightarrow> (string \<times> string list) list \<Rightarrow> string list \<Rightarrow>
   string set \<times> Task list \<Rightarrow> exn + string set \<times> Task list" where
  "dfs_chain task_dict adj node (visited, chain) =
     (if node \<in> visited then Inr (visited, chain)
      else
        (case dfs_chain_deps task_dict adj (adj_get adj node) (insert node visited, chain) of
           Inl e \<Rightarrow> Inl e
         | Inr (visited', chain') \<Rightarrow>
             (case map_of task_dict node of
                None \<Rightarrow> Inl KeyError
              | Some task \<Rightarrow> Inr (visited', chain' @ [task]))))"
| "dfs_chain_deps task_dict adj [] s = Inr s"
| "dfs_chain_deps task_dict adj (dep_id # deps) s =
     (if in_dict dep_id task_dict
      then (case dfs_chain task_dict adj dep_id s of
              Inl e \<Rightarrow> Inl e
            | Inr s' \<Rightarrow> dfs_chain_deps task_dict adj deps s')
      else dfs_chain_deps task_dict adj deps s)"
  by pat_completeness auto

definition get_dependency_chain :: "Env \<Rightarrow> TaskStorage \<Rightarrow> string \<Rightarrow> exn + Task list" where
  "get_dependency_chain env st i =
     (case build_graph env st of
        (task_dict, adj) \<Rightarrow>
          if \<not> in_dict i task_dict then Inr []
          else (case dfs_chain task_dict adj i ({}, []) of
                  Inl e \<Rightarrow> Inl e
                | Inr (visited, chain) \<Rightarrow> Inr chain))"

text \<open>
  \<^verbatim>\<open>check_consistency\<close>. The closure \<^verbatim>\<open>dfs(node, path)\<close> works on the dict \<^verbatim>\<open>color\<close>, on the
  list \<^verbatim>\<open>path\<close> that all recursive calls share, and on the list \<^verbatim>\<open>cycles\<close>; it returns
  whether a cycle was found. \<^verbatim>\<open>path.index(x)\<close> raises \<open>ValueError\<close> when \<open>x\<close> is not in the
  list, and \<^verbatim>\<open>path.pop()\<close> raises \<open>IndexError\<close> on an empty list.
\<close>

datatype colour = WHITE | GRAY | BLACK

fun list_index :: "string list \<Rightarrow> string \<Rightarrow> exn + nat" where
  "list_index [] x = Inl ValueError"
| "list_index (y # ys) x =
     (if y = x then Inr 0
      else (case list_index ys x of Inl e \<Rightarrow> Inl e | Inr n \<Rightarrow> Inr (Suc n)))"

fun join :: "string \<Rightarrow> string list \<Rightarrow> string" where
  "join sep [] = []"
| "join sep [x] = x"
| "join sep (x # y # ys) = x @ sep @ join sep (y # ys)"

type_synonym cc_state = "(string \<times> colour) list \<times> string list \<times> string list"

function cc_dfs ::
  "(string \<times> string list) list \<Rightarrow> string \<Rightarrow> cc_state \<Rightarrow> exn + bool \<times> cc_state"
and cc_neighbors ::
  "(string \<times> string list) list \<Rightarrow> string \<Rightarrow> string list \<Rightarrow> cc_state \<Rightarrow>
   exn + bool \<times> cc_state" where
  "cc_dfs adj node (color, path, cycles) =
     cc_neighbors adj node (adj_get adj node)
       (AList.update node GRAY color, path @ [node], cycles)"
| "cc_neighbors adj node [] (color, path, cycles) =
     (if path = [] then Inl IndexError
      else Inr (False, (AList.update node BLACK color, butlast path, cycles)))"
| "cc_neighbors adj node (neighbor # rest) (color, path, cycles) =
     (case map_of color neighbor of
        None \<Rightarrow> cc_neighbors adj node rest (color, path, cycles)
      | Some c \<Rightarrow>
          if c = GRAY then
            (case list_index path neighbor of
               Inl e \<Rightarrow> Inl e
             | Inr cycle_start \<Rightarrow>
                 Inr (True, (color, path,
                       cycles @ [''Circular dependency detected: ''
                                 @ join '' -> '' (drop cycle_start path @ [neighbor])])))
          else if c = WHITE then
            (case cc_dfs adj neighbor (color, path, cycles) of
               Inl e \<Rightarrow> Inl e
             | Inr (found, s') \<Rightarrow>
                 if found then Inr (True, s') else cc_neighbors adj node rest s')
          else cc_neighbors adj node rest (color, path, cycles))"
  by pat_completeness auto

text \<open>
  The loop \<^verbatim>\<open>for task_id in task_dict: if color[task_id] == WHITE: dfs(task_id, [])\<close>; the
  result of the call is dropped, an exception is not.
\<close>

fun cc_roots ::
  "(string \<times> string list) list \<Rightarrow> string list \<Rightarrow> (string \<times> colour) list \<times> string list \<Rightarrow>
   exn + (string \<times> colour) list \<times> string list" where
  "cc_roots adj [] s = Inr s"
| "cc_roots adj (root # rest) (color, cycles) =
     (case map_of color root of
        None \<Rightarrow> Inl KeyError
      | Some c \<Rightarrow>
          if c = WHITE then
            (case cc_dfs adj root (color, [], cycles) of
               Inl e \<Rightarrow> Inl e
             | Inr (found, (color', path', cycles')) \<Rightarrow> cc_roots adj rest (color', cycles'))
          else cc_roots adj rest (color, cycles))"

text \<open>The second pass of \<^verbatim>\<open>check_consistency\<close>, over every \<^verbatim>\<open>depends_on\<close> of every item.\<close>

definition missing_dependency_errors :: "(string \<times> Task) list \<Rightarrow> string list" where
  "missing_dependency_errors task_dict =
     concat (map (\<lambda>(k, task).
                    map (\<lambda>dep_id. ''Task '' @ [CHR 0x27] @ k @ [CHR 0x27]
                                   @ '' depends on non-existent task ''
                                   @ [CHR 0x27] @ dep_id @ [CHR 0x27])
                        (filter (\<lambda>dep_id. \<not> in_dict dep_id task_dict) (depends_on task)))
                 task_dict)"

definition check_consistency :: "Env \<Rightarrow> TaskStorage \<Rightarrow> exn + bool \<times> string list" where
  "check_consistency env st =
     (case build_graph env st of
        (task_dict, adj) \<Rightarrow>
          (case cc_roots adj (map fst task_dict) (map (\<lambda>(k, t). (k, WHITE)) task_dict, []) of
             Inl e \<Rightarrow> Inl e
           | Inr (color, cycles) \<Rightarrow>
               (let errors = cycles @ missing_dependency_errors task_dict
                in Inr (errors = [], errors))))"

subsection \<open>MissionControl\<close>

definition list_ready_work :: "Env \<Rightarrow> TaskStorage \<Rightarrow> Task list" where
  "list_ready_work env st = get_ready_tasks env st"

definition get_task :: "Env \<Rightarrow> TaskStorage \<Rightarrow> string \<Rightarrow> Task option" where
  "get_task env st i = load_task env st i"

definition get_task_impact :: "Env \<Rightarrow> TaskStorage \<Rightarrow> string \<Rightarrow> Task list" where
  "get_task_impact env st i = get_dependents env st i"

definition get_task_chain :: "Env \<Rightarrow> TaskStorage \<Rightarrow> string \<Rightarrow> exn + Task list" where
  "get_task_chain env st i = get_dependency_chain env st i"

text \<open>\<^verbatim>\<open>MissionControl.delete_task\<close>.\<close>

definition mc_delete_task :: "Env \<Rightarrow> TaskStorage \<Rightarrow> string \<Rightarrow> TaskStorage \<times> bool" where
  "mc_delete_task env st i = delete_task env st i"

text \<open>
  \<^verbatim>\<open>create_task\<close>: the constructor call with the defaults of the model (empty id, status
  \<open>todo\<close>, no blockers, metadata with empty branch and commit and the two timestamps of
  now), then \<^verbatim>\<open>save_task\<close>. An argument left out is \<open>None\<close>.
\<close>

definition create_task ::
  "Env \<Rightarrow> TaskStorage \<Rightarrow> string \<Rightarrow> string \<Rightarrow> string list option \<Rightarrow> string list option \<Rightarrow> int \<Rightarrow>
   exn + TaskStorage \<times> Task" where
  "create_task env st ttl descr deps tgs prio =
     (case Task_init env
             \<lparr>task_id = [], title = ttl, description = descr, status = TODO,
              depends_on = (case deps of None \<Rightarrow> [] | Some ds \<Rightarrow> ds),
              blocked_by = [],
              tags = (case tgs of None \<Rightarrow> [] | Some ts \<Rightarrow> ts),
              priority = prio,
              metadata = \<lparr>branch = [], commit_hash = [],
                          created_at = isoformat_now env, updated_at = isoformat_now env\<rparr>\<rparr> of
        None \<Rightarrow> Inl ValidationError
      | Some task \<Rightarrow> Inr (save_task env st task))"

text \<open>
  \<^verbatim>\<open>update_task\<close>: every argument that is not \<open>None\<close> is assigned to its field, then
  \<^verbatim>\<open>save_task\<close>. The class \<^verbatim>\<open>Task\<close> does not ask pydantic to validate assignments, so the
  bounds of \<^verbatim>\<open>priority\<close> are not checked here.
\<close>

definition update_task ::
  "Env \<Rightarrow> TaskStorage \<Rightarrow> string \<Rightarrow> string option \<Rightarrow> string option \<Rightarrow> string list option \<Rightarrow>
   string list option \<Rightarrow> int option \<Rightarrow> TaskStatus option \<Rightarrow> TaskStorage \<times> Task option" where
  "update_task env st i new_title new_description new_depends_on new_tags new_priority
     new_status =
     (case load_task env st i of
        None \<Rightarrow> (st, None)
      | Some task \<Rightarrow>
          (let t1 = (case new_title of None \<Rightarrow> task | Some v \<Rightarrow> task\<lparr>title := v\<rparr>);
               t2 = (case new_description of None \<Rightarrow> t1 | Some v \<Rightarrow> t1\<lparr>description := v\<rparr>);
               t3 = (case new_depends_on of None \<Rightarrow> t2 | Some v \<Rightarrow> t2\<lparr>depends_on := v\<rparr>);
               t4 = (case new_tags of None \<Rightarrow> t3 | Some v \<Rightarrow> t3\<lparr>tags := v\<rparr>);
               t5 = (case new_priority of None \<Rightarrow> t4 | Some v \<Rightarrow> t4\<lparr>priority := v\<rparr>);
               t6 = (case new_status of None \<Rightarrow> t5 | Some v \<Rightarrow> t5\<lparr>status := v\<rparr>)
           in (case save_task env st t6 of (st', task') \<Rightarrow> (st', Some task'))))"

text \<open>\<^verbatim>\<open>update_task_status\<close>: the new storage and the returned task (\<open>None\<close> when not found).\<close>

definition update_task_status ::
  "Env \<Rightarrow> TaskStorage \<Rightarrow> string \<Rightarrow> TaskStatus \<Rightarrow> bool \<Rightarrow> TaskStorage \<times> Task option" where
  "update_task_status env st i new_status auto_archive =
     (case load_task env st i of
        None \<Rightarrow> (st, None)
      | Some task \<Rightarrow>
          (case save_task env st (task\<lparr>status := new_status\<rparr>) of
             (st1, task') \<Rightarrow>
               if auto_archive \<and> new_status = DONE
               then (let dependents = get_dependents env st1 i
                     in if dependents = [] then (fst (archive_task env st1 i), Some task')
                        else (st1, Some task'))
               else (st1, Some task')))"

subsection \<open>The tool layer: \<^verbatim>\<open>handle_delete_task\<close>\<close>

text \<open>Python's \<^verbatim>\<open>str\<close> of a length, for the f-string of the error message.\<close>

fun str_nat :: "nat \<Rightarrow> string" where
  "str_nat n =
     (if n < 10 then [''0123456789'' ! n]
      else str_nat (n div 10) @ [''0123456789'' ! (n mod 10)])"

declare str_nat.simps [simp del]

text \<open>
  The two JSON objects the handler can answer with: \<^verbatim>\<open>{success: false, error,
  dependent_tasks: [{id, title}, ...]}\<close> and \<^verbatim>\<open>{success, message}\<close>.
\<close>

datatype delete_response =
  Refused bool string "(string \<times> string) list"
| Answered bool string

definition handle_delete_task ::
  "Env \<Rightarrow> TaskStorage \<Rightarrow> string \<Rightarrow> TaskStorage \<times> delete_response" where
  "handle_delete_task env st i =
     (let dependents = get_task_impact env st i
      in if dependents \<noteq> []
         then (st, Refused False
                     (''Cannot delete task '' @ i @ '' - '' @ str_nat (length dependents)
                        @ '' task(s) depend on it'')
                     (map (\<lambda>t. (task_id t, title t)) dependents))
         else (case mc_delete_task env st i of
                 (st', deleted) \<Rightarrow>
                   (st', Answered deleted
                           (if deleted then ''Deleted task '' @ i
                            else ''Task '' @ i @ '' not found''))))"

text \<open>
  A dependency id is resolved in a dict when the dict has a task under it whose status is
  \<open>done\<close>: the negation of the two tests in the loop of \<^verbatim>\<open>get_ready_tasks\<close>.
\<close>

definition dep_resolved :: "(string \<times> Task) list \<Rightarrow> string \<Rightarrow> bool" where
  "dep_resolved td d = (case map_of td d of None \<Rightarrow> False | Some u \<Rightarrow> status u = DONE)"

subsection \<open>The dependency graph as a relation\<close>

text \<open>
  The edges of the active-set graph: from the id of an active task to each id in its
  \<^verbatim>\<open>depends_on\<close> that is the id of an active task.
\<close>

definition depends_edges :: "Env \<Rightarrow> TaskStorage \<Rightarrow> (string \<times> string) set" where
  "depends_edges env st =
     {(n, d). \<exists>t \<in> set (load_all_tasks env st).
                task_id t = n \<and> d \<in> set (depends_on t) \<and>
                d \<in> task_id ` set (load_all_tasks env st)}"

text \<open>
  The same edges as \<^verbatim>\<open>get_dependency_chain\<close> walks them, read off the two dicts of
  \<^verbatim>\<open>_build_graph\<close>.
\<close>

definition dict_edges ::
  "(string \<times> Task) list \<Rightarrow> (string \<times> string list) list \<Rightarrow> (string \<times> string) set" where
  "dict_edges td adj = {(n, d). d \<in> set (adj_get adj n) \<and> in_dict d td}"

text \<open>
  A list of ids is topologically listed when every successor of an entry stands at an
  earlier index. The invariant of the traversal on its state \<open>(visited, chain)\<close>: the chain
  has no id twice, holds visited ids only, holds the dict's own tasks, and is
  topologically listed. Its precondition at a set of start nodes: whatever is reachable
  and already visited is already in the chain, and no cycle is reachable. Its effect:
  everything reachable is added to both.
\<close>

definition topo_listed :: "(string \<times> string) set \<Rightarrow> string list \<Rightarrow> bool" where
  "topo_listed E L \<longleftrightarrow> (\<forall>i<length L. \<forall>d. (L ! i, d) \<in> E \<longrightarrow> (\<exists>j<i. L ! j = d))"

definition chain_inv ::
  "(string \<times> Task) list \<Rightarrow> (string \<times> string) set \<Rightarrow> string set \<times> Task list \<Rightarrow> bool" where
  "chain_inv td E s \<longleftrightarrow>
     distinct (map task_id (snd s)) \<and> task_id ` set (snd s) \<subseteq> fst s \<and>
     (\<forall>t \<in> set (snd s). map_of td (task_id t) = Some t) \<and>
     topo_listed E (map task_id (snd s))"

definition dfs_pre ::
  "(string \<times> string) set \<Rightarrow> string set \<Rightarrow> string set \<times> Task list \<Rightarrow> bool" where
  "dfs_pre E A s \<longleftrightarrow>
     (\<forall>n \<in> E\<^sup>* `` A. (n \<in> fst s \<longrightarrow> n \<in> task_id ` set (snd s)) \<and> (n, n) \<notin> E\<^sup>+)"

definition dfs_post ::
  "(string \<times> Task) list \<Rightarrow> (string \<times> string) set \<Rightarrow> string set \<Rightarrow>
   string set \<times> Task list \<Rightarrow> string set \<times> Task list \<Rightarrow> bool" where
  "dfs_post td E A s s' \<longleftrightarrow>
     fst s' = fst s \<union> E\<^sup>* `` A \<and>
     task_id ` set (snd s') = task_id ` set (snd s) \<union> E\<^sup>* `` A \<and>
     chain_inv td E s'"

text \<open>
  For \<^verbatim>\<open>check_consistency\<close>: the edges as its traversal sees them (a neighbour counts when
  it is a key of \<^verbatim>\<open>color\<close>), and what a traversal that finds no cycle keeps true. The black
  nodes can be listed topologically; the keys of \<^verbatim>\<open>color\<close> stay the same; a node that is
  not white keeps its colour (but for the nodes of a set \<open>X\<close>); no node becomes gray. On
  an acyclic graph, the gray nodes are those of \<^verbatim>\<open>path\<close>.
\<close>

definition colour_edges ::
  "(string \<times> string list) list \<Rightarrow> (string \<times> colour) list \<Rightarrow> (string \<times> string) set" where
  "colour_edges adj color = {(n, d). d \<in> set (adj_get adj n) \<and> map_of color d \<noteq> None}"

definition finished_inv :: "(string \<times> string list) list \<Rightarrow> (string \<times> colour) list \<Rightarrow> bool" where
  "finished_inv adj color \<longleftrightarrow>
     (\<exists>F. distinct F \<and> set F = {n. map_of color n = Some BLACK} \<and>
          topo_listed (colour_edges adj color) F)"

definition same_keys :: "(string \<times> colour) list \<Rightarrow> (string \<times> colour) list \<Rightarrow> bool" where
  "same_keys color color' \<longleftrightarrow> (\<forall>n. map_of color' n = None \<longleftrightarrow> map_of color n = None)"

definition no_new_gray :: "(string \<times> colour) list \<Rightarrow> (string \<times> colour) list \<Rightarrow> bool" where
  "no_new_gray color color' \<longleftrightarrow>
     (\<forall>n. map_of color' n = Some GRAY \<longrightarrow> map_of color n = Some GRAY)"

definition settled_kept ::
  "string set \<Rightarrow> (string \<times> colour) list \<Rightarrow> (string \<times> colour) list \<Rightarrow> bool" where
  "settled_kept X color color' \<longleftrightarrow>
     (\<forall>n. n \<notin> X \<longrightarrow> map_of color n \<noteq> Some WHITE \<longrightarrow> map_of color' n = map_of color n)"

definition on_path :: "(string \<times> colour) list \<Rightarrow> string list \<Rightarrow> bool" where
  "on_path color path \<longleftrightarrow> (\<forall>n. map_of color n = Some GRAY \<longleftrightarrow> n \<in> set path)"

definition same_gray :: "string set \<Rightarrow> (string \<times> colour) list \<Rightarrow> (string \<times> colour) list \<Rightarrow> bool" where
  "same_gray X color color' \<longleftrightarrow>
     (\<forall>n. map_of color' n = Some GRAY \<longleftrightarrow> n \<notin> X \<and> map_of color n = Some GRAY)"

subsection \<open>Measures for the two traversals\<close>

text \<open>
  What decreases in \<open>dfs_chain\<close> is the number of dict keys not yet visited; in \<open>cc_dfs\<close>
  the number of white entries of \<^verbatim>\<open>color\<close>.
\<close>

fun chain_unvisited :: "(string \<times> Task) list \<Rightarrow> string set \<times> Task list \<Rightarrow> nat" where
  "chain_unvisited td (v, c) = card (fst ` set td - v)"

fun whites :: "cc_state \<Rightarrow> nat" where
  "whites (color, path, cycles) = length (filter (\<lambda>kc. snd kc = WHITE) color)"

subsection \<open>Example stores\<close>

definition example_env :: Env where
  "example_env =
     \<lparr>get_current_branch = ''main'', get_current_commit = ''1a2b3c4'',
      isoformat_now = ''2025-03-01T12:00:00'',
      sha256_hex6 = (\<lambda>ttl. if ttl = ''A'' then ''a1b2c3''
                          else if ttl = ''B'' then ''d4e5f6'' else ''c0ffee''),
      set_iteration = remdups\<rparr>"

definition example_task ::
  "string \<Rightarrow> TaskStatus \<Rightarrow> string list \<Rightarrow> int \<Rightarrow> string \<Rightarrow> Task" where
  "example_task i s deps p c =
     \<lparr>task_id = i, title = ''Task '' @ i, description = [], status = s, depends_on = deps,
      blocked_by = [], tags = [], priority = p,
      metadata = \<lparr>branch = ''main'', commit_hash = ''0000000'',
                  created_at = c, updated_at = c\<rparr>\<rparr>"

definition example_store :: "Task list \<Rightarrow> TaskStorage" where
  "example_store ts = \<lparr>tasks_file = map Object ts, archive_file = []\<rparr>"

text \<open>
  The store after \<^verbatim>\<open>create_task("A")\<close> and \<^verbatim>\<open>create_task("B", depends_on=[A.id])\<close> on an empty
  directory.
\<close>

definition store_A_B :: TaskStorage where
  "store_A_B =
     (case create_task example_env \<lparr>tasks_file = [], archive_file = []\<rparr>
             ''A'' [] None None 5 of
        Inl e \<Rightarrow> \<lparr>tasks_file = [], archive_file = []\<rparr>
      | Inr (st1, a) \<Rightarrow>
          (case create_task example_env st1 ''B'' [] (Some [task_id a]) None 5 of
             Inl e \<Rightarrow> st1
           | Inr (st2, b) \<Rightarrow> st2))"

section \<open>Storage: loading what was written\<close>

lemma Task_init_valid: "Task_init env r = Some t \<Longrightarrow> valid_task t"
  by (auto simp: Task_init_def generate_id_if_empty_def valid_task_def split: if_splits)

lemma Task_init_of_valid: "valid_task t \<Longrightarrow> Task_init env t = Some t"
  by (auto simp: Task_init_def generate_id_if_empty_def valid_task_def)

lemma load_lines_valid: "t \<in> set (load_lines env ls) \<Longrightarrow> valid_task t"
  by (induction ls) (auto split: jsonl_line.splits option.splits dest: Task_init_valid)

lemma load_all_tasks_valid: "t \<in> set (load_all_tasks env st) \<Longrightarrow> valid_task t"
  by (simp add: load_all_tasks_def load_lines_valid)

lemma load_lines_Objects:
  "\<forall>t \<in> set ts. valid_task t \<Longrightarrow> load_lines env (map Object ts) = ts"
  by (induction ts) (simp_all add: Task_init_of_valid)

lemma load_all_tasks_write:
  "\<forall>t \<in> set ts. valid_task t \<Longrightarrow> load_all_tasks env (write_tasks st ts) = ts"
  by (simp add: load_all_tasks_def write_tasks_def load_lines_Objects)

lemma valid_update_git_metadata [simp]:
  "valid_task (update_git_metadata env t) = valid_task t"
  by (simp add: valid_task_def update_git_metadata_def)

lemma task_id_update_git_metadata [simp]:
  "task_id (update_git_metadata env t) = task_id t"
  by (simp add: update_git_metadata_def)

lemma set_find_and_update: "set (find_and_update ts t) \<subseteq> insert t (set ts)"
  by (induction ts) auto

lemma find_task_find_and_update:
  "find_task (find_and_update ts t) (task_id t) = Some t"
  by (induction ts) auto

lemma find_task_find_and_update_other:
  "i \<noteq> task_id t \<Longrightarrow> find_task (find_and_update ts t) i = find_task ts i"
  by (induction ts) auto

lemma load_all_tasks_save:
  assumes "valid_task t"
  shows "load_all_tasks env (fst (save_task env st t)) =
         find_and_update (load_all_tasks env st) (update_git_metadata env t)"
proof -
  have "\<forall>u \<in> set (find_and_update (load_all_tasks env st) (update_git_metadata env t)).
          valid_task u"
    using set_find_and_update [of "load_all_tasks env st" "update_git_metadata env t"]
      assms load_all_tasks_valid by auto
  then show ?thesis
    by (simp add: save_task_def Let_def load_all_tasks_write)
qed

lemma find_and_update_replace:
  "n < length ts \<Longrightarrow> task_id (ts ! n) = task_id t \<Longrightarrow>
   (\<forall>j<n. task_id (ts ! j) \<noteq> task_id t) \<Longrightarrow> find_and_update ts t = ts[n := t]"
proof (induction ts arbitrary: n)
  case Nil
  then show ?case by simp
next
  case (Cons e es)
  show ?case
  proof (cases n)
    case 0
    with Cons.prems show ?thesis by simp
  next
    case (Suc m)
    with Cons.prems have "task_id e \<noteq> task_id t" by auto
    moreover from Suc Cons.prems have "find_and_update es t = es[m := t]"
      by (intro Cons.IH) auto
    ultimately show ?thesis using Suc by simp
  qed
qed

lemma find_and_update_append:
  "\<forall>e \<in> set ts. task_id e \<noteq> task_id t \<Longrightarrow> find_and_update ts t = ts @ [t]"
  by (induction ts) auto

lemma tasks_file_save:
  "tasks_file (fst (save_task env st t)) =
     map Object (find_and_update (load_all_tasks env st) (update_git_metadata env t))"
  by (simp add: save_task_def Let_def write_tasks_def)

lemma archive_file_save: "archive_file (fst (save_task env st t)) = archive_file st"
  by (simp add: save_task_def Let_def write_tasks_def)

lemma load_example_store:
  "\<forall>t \<in> set ts. valid_task t \<Longrightarrow> load_all_tasks env (example_store ts) = ts"
  by (simp add: load_all_tasks_def example_store_def load_lines_Objects)

section \<open>The dict of tasks\<close>

lemma update_absent: "k \<notin> fst ` set al \<Longrightarrow> AList.update k v al = al @ [(k, v)]"
  by (induction al) auto

lemma keys_foldl_update:
  "fst ` set (foldl (\<lambda>d t. AList.update (key t) (val t) d) d0 ts) = fst ` set d0 \<union> key ` set ts"
  by (induction ts arbitrary: d0) (auto simp: AList.dom_update)

lemma keys_build_task_dict: "fst ` set (build_task_dict ts) = task_id ` set ts"
  by (simp add: build_task_dict_def keys_foldl_update [where val = "\<lambda>t. t"])

lemma in_dict_build_task_dict: "in_dict i (build_task_dict ts) \<longleftrightarrow> i \<in> task_id ` set ts"
  by (simp add: in_dict_def keys_build_task_dict)

section \<open>The traversals terminate\<close>

lemma dfs_chain_grows:
  "dfs_chain_dfs_chain_deps_dom (Inl (td, adj, node, s)) \<Longrightarrow>
     dfs_chain td adj node s = Inr s' \<Longrightarrow> fst s \<subseteq> fst s'"
  "dfs_chain_dfs_chain_deps_dom (Inr (td, adj, ds, s)) \<Longrightarrow>
     dfs_chain_deps td adj ds s = Inr s' \<Longrightarrow> fst s \<subseteq> fst s'"
proof (induction td adj node s and td adj ds s arbitrary: s' and s' rule: dfs_chain_dfs_chain_deps.pinduct)
  case (1 task_dict adj node visited chain)
  show ?case
  proof (cases "node \<in> visited")
    case True
    with 1(1) 1(3) show ?thesis by (simp add: dfs_chain.psimps)
  next
    case False
    with 1(1) 1(3) obtain s1 where
      s1: "dfs_chain_deps task_dict adj (adj_get adj node) (insert node visited, chain) = Inr s1"
      and "fst s' = fst s1"
      by (auto simp: dfs_chain.psimps split: sum.splits option.splits)
    with 1(2) [OF False s1] show ?thesis by auto
  qed
next
  case (2 task_dict adj s)
  then show ?case by (simp add: dfs_chain_deps.psimps)
next
  case (3 task_dict adj dep_id deps s)
  show ?case
  proof (cases "in_dict dep_id task_dict")
    case True
    with 3(1) 3(5) obtain s1 where
      s1: "dfs_chain task_dict adj dep_id s = Inr s1"
      and s2: "dfs_chain_deps task_dict adj deps s1 = Inr s'"
      by (auto simp: dfs_chain_deps.psimps split: sum.splits)
    from 3(2) [OF True s1] 3(3) [OF True s1 s2] show ?thesis by blast
  next
    case False
    with 3(1) 3(5) have "dfs_chain_deps task_dict adj deps s = Inr s'"
      by (simp add: dfs_chain_deps.psimps)
    with 3(4) [OF False] show ?thesis by blast
  qed
qed

lemma chain_unvisited_insert:
  "node \<notin> v \<Longrightarrow> in_dict node td \<Longrightarrow> chain_unvisited td (insert node v, c) < chain_unvisited td (v, c)"
proof -
  assume a: "node \<notin> v" "in_dict node td"
  then have "node \<in> fst ` set td - v" by (simp add: in_dict_def)
  then have "card (fst ` set td - v - {node}) < card (fst ` set td - v)"
    by (intro card_Diff1_less) auto
  moreover have "fst ` set td - insert node v = fst ` set td - v - {node}"
    by auto
  ultimately show ?thesis by simp
qed

lemma chain_unvisited_insert_out:
  "\<not> in_dict node td \<Longrightarrow> chain_unvisited td (insert node v, c) = chain_unvisited td (v, c)"
proof -
  assume "\<not> in_dict node td"
  then have "fst ` set td - insert node v = fst ` set td - v"
    by (auto simp: in_dict_def)
  then show ?thesis by simp
qed

lemma chain_unvisited_mono:
  "fst s \<subseteq> fst s' \<Longrightarrow> chain_unvisited td s' \<le> chain_unvisited td s"
proof -
  assume "fst s \<subseteq> fst s'"
  then have "card (fst ` set td - fst s') \<le> card (fst ` set td - fst s)"
    by (intro card_mono) auto
  then show ?thesis by (cases s; cases s') simp
qed

declare chain_unvisited.simps [simp del]

termination dfs_chain
proof (relation "measures [
    (\<lambda>x. case x of Inl (td, adj, node, s) \<Rightarrow> chain_unvisited td s
                 | Inr (td, adj, ds, s) \<Rightarrow> chain_unvisited td s),
    (\<lambda>x. case x of Inl (td, adj, node, s) \<Rightarrow> (if in_dict node td then 1 else 3)
                 | Inr (td, adj, ds, s) \<Rightarrow> 2),
    (\<lambda>x. case x of Inl (td, adj, node, s) \<Rightarrow> 0
                 | Inr (td, adj, ds, s) \<Rightarrow> length ds)]", goal_cases)
  case 1
  then show ?case by simp
next
  case (2 task_dict adj node visited chain)
  then show ?case
    using chain_unvisited_insert [of node visited task_dict chain]
      chain_unvisited_insert_out [of node task_dict visited chain]
    by (cases "in_dict node task_dict") simp_all
next
  case (3 task_dict adj dep_id deps s)
  then show ?case by simp
next
  case (4 task_dict adj dep_id deps s b)
  from dfs_chain_grows(1) [OF 4(3) 4(2)] have "fst s \<subseteq> fst b" .
  then have "chain_unvisited task_dict b \<le> chain_unvisited task_dict s"
    by (rule chain_unvisited_mono)
  then show ?case by auto
next
  case (5 task_dict adj dep_id deps s)
  then show ?case by simp
qed

lemma whites_update_le:
  "c \<noteq> WHITE \<Longrightarrow> whites (AList.update k c color, p, cy) \<le> whites (color, p', cy')"
  by (induction color) auto

lemma whites_update_less:
  "c \<noteq> WHITE \<Longrightarrow> map_of color k = Some WHITE \<Longrightarrow>
     whites (AList.update k c color, p, cy) < whites (color, p', cy')"
  by (induction color) (auto split: if_splits)

lemma cc_dfs_whites:
  "cc_dfs_cc_neighbors_dom (Inl (adj, node, s)) \<Longrightarrow>
     cc_dfs adj node s = Inr (b, s') \<Longrightarrow> whites s' \<le> whites s"
  "cc_dfs_cc_neighbors_dom (Inr (adj, node, ns, s)) \<Longrightarrow>
     cc_neighbors adj node ns s = Inr (b, s') \<Longrightarrow> whites s' \<le> whites s"
proof (induction adj node s and adj node ns s arbitrary: b s' and b s'
    rule: cc_dfs_cc_neighbors.pinduct)
  case (1 adj node color path cycles)
  from 1(1) 1(3) have
    "cc_neighbors adj node (adj_get adj node) (AList.update node GRAY color, path @ [node], cycles) = Inr (b, s')"
    by (simp add: cc_dfs.psimps)
  from 1(2) [OF this] whites_update_le [of GRAY node color "path @ [node]" cycles path cycles]
  show ?case by simp
next
  case (2 adj node color path cycles)
  from 2(1) 2(2) have "s' = (AList.update node BLACK color, butlast path, cycles)"
    by (auto simp: cc_neighbors.psimps split: if_splits)
  with whites_update_le [of BLACK node color "butlast path" cycles path cycles]
  show ?case by simp
next
  case (3 adj node neighbor rest color path cycles)
  note eq = 3(6) [unfolded cc_neighbors.psimps(2) [OF 3(1)]]
  show ?case
  proof (cases "map_of color neighbor")
    case None
    with eq 3(2) [OF None] show ?thesis by simp
  next
    case (Some c)
    show ?thesis
    proof (cases c)
      case WHITE
      with Some eq obtain found s1 where
        s1: "cc_dfs adj neighbor (color, path, cycles) = Inr (found, s1)"
        by (auto split: sum.splits)
      have le1: "whites s1 \<le> whites (color, path, cycles)"
        using 3(3) [OF Some _ _ s1] WHITE by simp
      show ?thesis
      proof (cases found)
        case True
        with Some WHITE eq s1 have "s' = s1" by simp
        with le1 show ?thesis by simp
      next
        case False
        with Some WHITE eq s1 have "cc_neighbors adj node rest s1 = Inr (b, s')" by simp
        from 3(4) [OF Some _ _ s1 _ False this] WHITE le1 show ?thesis by simp
      qed
    next
      case GRAY
      with Some eq show ?thesis by (auto split: sum.splits)
    next
      case BLACK
      with Some eq 3(5) [OF Some] show ?thesis by simp
    qed
  qed
qed

termination cc_dfs
proof (relation "measures [
    (\<lambda>x. case x of Inl (adj, node, s) \<Rightarrow> whites s
                 | Inr (adj, node, ns, s) \<Rightarrow> whites s),
    (\<lambda>x. case x of Inl (adj, node, (color, p, cy)) \<Rightarrow>
                      (if map_of color node = Some WHITE then 1 else 3)
                 | Inr (adj, node, ns, s) \<Rightarrow> 2),
    (\<lambda>x. case x of Inl (adj, node, s) \<Rightarrow> 0
                 | Inr (adj, node, ns, s) \<Rightarrow> length ns)]", goal_cases)
  case 1
  then show ?case by simp
next
  case (2 adj node color path cycles)
  show ?case
  proof (cases "map_of color node = Some WHITE")
    case True
    from whites_update_less [OF _ True, of GRAY "path @ [node]" cycles path cycles]
    show ?thesis by simp
  next
    case False
    from whites_update_le [of GRAY node color "path @ [node]" cycles path cycles] False
    show ?thesis by auto
  qed
next
  case (3 adj node neighbor rest color path cycles)
  then show ?case by simp
next
  case (4 adj node neighbor rest color path cycles c)
  then show ?case by simp
next
  case (5 adj node neighbor rest color path cycles c bs found s1)
  from 5(4) 5(5) have "cc_dfs adj neighbor (color, path, cycles) = Inr (found, s1)" by simp
  from cc_dfs_whites(1) [OF 5(7) this] show ?case by auto
next
  case (6 adj node neighbor rest color path cycles c)
  then show ?case by simp
qed

declare whites.simps [simp del]

section \<open>Deleting and archiving\<close>

lemma find_task_Some: "find_task ts i = Some t \<Longrightarrow> task_id t = i \<and> t \<in> set ts"
  by (induction ts) (auto split: if_splits)

lemma load_task_valid:
  assumes "load_task env st i = Some t"
  shows "valid_task t" "task_id t = i" "t \<in> set (load_all_tasks env st)"
proof -
  from assms have "task_id t = i \<and> t \<in> set (load_all_tasks env st)"
    unfolding load_task_def by (rule find_task_Some)
  then show "task_id t = i" "t \<in> set (load_all_tasks env st)" by simp_all
  then show "valid_task t" by (simp add: load_all_tasks_valid)
qed

lemma find_task_None: "find_task ts i = None \<longleftrightarrow> i \<notin> task_id ` set ts"
  by (induction ts) auto

lemma find_task_filter: "find_task (filter (\<lambda>t. task_id t \<noteq> i) ts) i = None"
  by (induction ts) auto

lemma delete_task_present:
  assumes "i \<in> task_id ` set (load_all_tasks env st)"
  shows "delete_task env st i =
           (write_tasks st (filter (\<lambda>t. task_id t \<noteq> i) (load_all_tasks env st)), True)"
proof -
  from assms obtain t where "t \<in> set (load_all_tasks env st)" "\<not> task_id t \<noteq> i" by auto
  then have "length (filter (\<lambda>t. task_id t \<noteq> i) (load_all_tasks env st))
             < length (load_all_tasks env st)"
    by (rule length_filter_less)
  then show ?thesis by (simp add: delete_task_def Let_def)
qed

lemma load_all_tasks_write_filter:
  "load_all_tasks env (write_tasks st (filter P (load_all_tasks env st'))) =
     filter P (load_all_tasks env st')"
  by (rule load_all_tasks_write) (auto dest: load_all_tasks_valid)

lemma load_all_tasks_archive_file [simp]:
  "load_all_tasks env (st\<lparr>archive_file := a\<rparr>) = load_all_tasks env st"
  by (simp add: load_all_tasks_def)

lemma delete_task_removes:
  assumes "i \<in> task_id ` set (load_all_tasks env st)"
  shows "snd (delete_task env st i)" "load_task env (fst (delete_task env st i)) i = None"
    "load_all_tasks env (fst (delete_task env st i)) = filter (\<lambda>t. task_id t \<noteq> i) (load_all_tasks env st)"
    "archive_file (fst (delete_task env st i)) = archive_file st"
  using delete_task_present [OF assms]
  by (simp_all add: load_task_def load_all_tasks_write_filter find_task_filter)
     (simp add: write_tasks_def)

lemma load_example:
  "load_all_tasks example_env
     (example_store [example_task ''m-1'' DONE [] 5 ''2025-01-01T09:00:00'',
                     example_task ''m-2'' IN_PROGRESS [''m-1''] 5 ''2025-01-02T09:00:00'']) =
   [example_task ''m-1'' DONE [] 5 ''2025-01-01T09:00:00'',
    example_task ''m-2'' IN_PROGRESS [''m-1''] 5 ''2025-01-02T09:00:00'']"
  by (rule load_example_store) (simp add: valid_task_def example_task_def)

section \<open>Dependents\<close>

text \<open>
  What \<open>get_dependents\<close> looks at: the id and the dependencies of every task.
\<close>

lemma update_map_snd:
  "map (\<lambda>(k, v). (k, f v)) (AList.update k v al) = AList.update k (f v) (map (\<lambda>(k, v). (k, f v)) al)"
  by (induction al) auto

lemma foldl_update_map_snd:
  "map (\<lambda>(k, v). (k, f v)) (foldl (\<lambda>d t. AList.update (key t) t d) d0 ts) =
   foldl (\<lambda>d p. AList.update (fst p) (snd p) d) (map (\<lambda>(k, v). (k, f v)) d0)
     (map (\<lambda>t. (key t, f t)) ts)"
  by (induction ts arbitrary: d0) (simp_all add: update_map_snd)

lemma get_dependents_Nil:
  "get_dependents env st i = [] \<longleftrightarrow>
     (\<forall>p \<in> set (foldl (\<lambda>d p. AList.update (fst p) (snd p) d) []
                   (map (\<lambda>t. (task_id t, depends_on t)) (load_all_tasks env st))).
        i \<notin> set (snd p))"
proof -
  let ?td = "build_task_dict (load_all_tasks env st)"
  have "get_dependents env st i = [] \<longleftrightarrow> (\<forall>p \<in> set ?td. i \<notin> set (depends_on (snd p)))"
    by (auto simp: get_dependents_def build_graph_def Let_def filter_empty_conv)
  also have "\<dots> \<longleftrightarrow> (\<forall>p \<in> set (map (\<lambda>(k, v). (k, depends_on v)) ?td). i \<notin> set (snd p))"
    by (auto simp: case_prod_beta)
  finally show ?thesis
    by (simp only: build_task_dict_def foldl_update_map_snd list.map)
qed

lemma dep_view_find_and_update:
  "find_task ts (task_id t') = Some t \<Longrightarrow> depends_on t' = depends_on t \<Longrightarrow>
     map (\<lambda>t. (task_id t, depends_on t)) (find_and_update ts t') =
     map (\<lambda>t. (task_id t, depends_on t)) ts"
  by (induction ts) (auto split: if_splits)

lemma load_task_write_archive [simp]:
  "load_task env (st\<lparr>archive_file := a\<rparr>) i = load_task env st i"
  by (simp add: load_task_def)

lemma archive_task_present:
  assumes "load_task env st i = Some t"
  shows "load_task env (fst (archive_task env st i)) i = None"
    and "archive_file (fst (archive_task env st i)) = archive_file st @ [Object t]"
proof -
  from load_task_valid(2,3) [OF assms]
  have "i \<in> task_id ` set (load_all_tasks env (st\<lparr>archive_file := archive_file st @ [Object t]\<rparr>))"
    by auto
  from delete_task_removes(2,4) [OF this] assms
  show "load_task env (fst (archive_task env st i)) i = None"
    and "archive_file (fst (archive_task env st i)) = archive_file st @ [Object t]"
    by (simp_all add: archive_task_def)
qed

lemma load_example2:
  "load_all_tasks example_env
     (example_store [example_task ''m-1'' TODO [] 5 ''2025-01-01T09:00:00'',
                     example_task ''m-2'' TODO [''m-1''] 5 ''2025-01-02T09:00:00'']) =
   [(example_task ''m-1'' TODO [] 5 ''2025-01-01T09:00:00''), (example_task ''m-2'' TODO [''m-1''] 5 ''2025-01-02T09:00:00'')]"
  by (rule load_example_store) (simp add: valid_task_def example_task_def)

section \<open>The ready queue\<close>

lemma distinct_keys_foldl_update:
  "distinct (map fst d0) \<Longrightarrow>
     distinct (map fst (foldl (\<lambda>d t. AList.update (key t) (val t) d) d0 ts))"
  by (induction ts arbitrary: d0) (simp_all add: AList.distinct_update)

lemma distinct_keys_build_task_dict: "distinct (map fst (build_task_dict ts))"
  by (simp add: build_task_dict_def distinct_keys_foldl_update [where val = "\<lambda>t. t"])

lemma build_task_dict_distinct:
  "distinct (map task_id ts) \<Longrightarrow> build_task_dict ts = map (\<lambda>t. (task_id t, t)) ts"
proof (induction ts rule: rev_induct)
  case Nil
  then show ?case by (simp add: build_task_dict_def)
next
  case (snoc t ts)
  then have "task_id t \<notin> fst ` set (map (\<lambda>t. (task_id t, t)) ts)"
    by (auto simp: image_image)
  with snoc show ?case
    by (simp add: build_task_dict_def update_absent)
qed

lemma check_deps_eq:
  "check_deps td deps (a, b) =
     (a \<and> list_all (dep_resolved td) deps, b @ filter (\<lambda>d. \<not> dep_resolved td d) deps)"
  by (induction deps arbitrary: a b) (auto simp: dep_resolved_def split: option.splits)

lemma dep_resolved_cong:
  "\<forall>k. map_option status (map_of td k) = map_option status (map_of td0 k) \<Longrightarrow>
     dep_resolved td = dep_resolved td0"
proof
  fix d
  assume a: "\<forall>k. map_option status (map_of td k) = map_option status (map_of td0 k)"
  then have "map_option status (map_of td d) = map_option status (map_of td0 d)" by blast
  then show "dep_resolved td d = dep_resolved td0 d"
    by (cases "map_of td d"; cases "map_of td0 d") (auto simp: dep_resolved_def)
qed

lemma ready_loop_snd:
  assumes "distinct (map fst td0)" "set items \<subseteq> set td0"
    "\<forall>k. map_option status (map_of td k) = map_option status (map_of td0 k)"
  shows "snd (ready_loop items (td, ready)) =
     ready @ map snd (filter (\<lambda>(k, t). status t = TODO
                                \<and> list_all (dep_resolved td0) (depends_on t)) items)"
  using assms(2,3)
proof (induction items arbitrary: td ready)
  case Nil
  then show ?case by simp
next
  case (Cons item items)
  obtain k task where item: "item = (k, task)" by (cases item)
  from Cons.prems item assms(1) have m: "map_of td0 k = Some task" by simp
  from Cons.prems have sub: "set items \<subseteq> set td0" by simp
  note dr = dep_resolved_cong [OF Cons.prems(2)]
  show ?case
  proof (cases "status task = TODO")
    case False
    with Cons.IH [OF sub Cons.prems(2)] item show ?thesis by simp
  next
    case True
    show ?thesis
    proof (cases "list_all (dep_resolved td0) (depends_on task)")
      case all: True
      with True Cons.IH [OF sub Cons.prems(2), of "ready @ [task]"] item dr
      show ?thesis by (simp add: check_deps_eq)
    next
      case nall: False
      let ?td' = "AList.update k
            (task\<lparr>blocked_by := filter (\<lambda>d. \<not> dep_resolved td0 d) (depends_on task)\<rparr>) td"
      have "\<forall>k'. map_option status (map_of ?td' k') = map_option status (map_of td0 k')"
        using Cons.prems(2) m by (auto simp: AList.update_conv')
      from Cons.IH [OF sub this, of ready] nall True item dr
      show ?thesis by (simp add: check_deps_eq)
    qed
  qed
qed

lemma get_ready_tasks_eq:
  "get_ready_tasks env st =
     sort_key ready_key
       (map snd (filter (\<lambda>(k, t). status t = TODO
                    \<and> list_all (dep_resolved (build_task_dict (load_all_tasks env st)))
                         (depends_on t))
                  (build_task_dict (load_all_tasks env st))))"
proof -
  have d: "distinct (map fst (build_task_dict (load_all_tasks env st)))"
    by (rule distinct_keys_build_task_dict)
  from ready_loop_snd [OF d subset_refl,
      where td = "build_task_dict (load_all_tasks env st)" and ready = "[]"]
  show ?thesis
    by (cases "ready_loop (build_task_dict (load_all_tasks env st))
                 (build_task_dict (load_all_tasks env st), [])")
       (simp add: get_ready_tasks_def get_ready_tasks_run_def build_graph_def Let_def)
qed

lemma dep_resolved_distinct:
  assumes "distinct (map task_id ts)"
  shows "dep_resolved (map (\<lambda>t. (task_id t, t)) ts) d \<longleftrightarrow>
           (\<exists>u \<in> set ts. task_id u = d \<and> status u = DONE)"
proof -
  let ?td = "map (\<lambda>t. (task_id t, t)) ts"
  have keys: "map fst ?td = map task_id ts" by (induction ts) simp_all
  have "distinct (map fst ?td)" unfolding keys by (rule assms)
  then have m: "map_of ?td d = Some u \<longleftrightarrow> (d, u) \<in> set ?td" for u
    by (rule map_of_eq_Some_iff)
  have mem: "(d, u) \<in> set ?td \<longleftrightarrow> u \<in> set ts \<and> task_id u = d" for u
    by (induction ts) auto
  from assms have inj: "inj_on task_id (set ts)" by (simp only: distinct_map)
  show ?thesis
  proof (cases "map_of ?td d")
    case None
    have "\<not> (u \<in> set ts \<and> task_id u = d)" for u
      using None m [of u] mem [of u] by simp
    then have "\<not> (\<exists>u \<in> set ts. task_id u = d \<and> status u = DONE)" by blast
    moreover from None have "\<not> dep_resolved ?td d" by (simp add: dep_resolved_def)
    ultimately show ?thesis by blast
  next
    case (Some u)
    with m [of u] mem [of u] have u: "u \<in> set ts" "task_id u = d" by simp_all
    have uniq: "v = u" if "v \<in> set ts" "task_id v = d" for v
      by (rule inj_onD [OF inj]) (simp_all add: that u)
    from Some have "dep_resolved ?td d \<longleftrightarrow> status u = DONE"
      by (simp add: dep_resolved_def)
    moreover have "(\<exists>v \<in> set ts. task_id v = d \<and> status v = DONE) \<longleftrightarrow> status u = DONE"
      using u uniq by blast
    ultimately show ?thesis by blast
  qed
qed

lemma map_snd_filter_keyed:
  "map snd (filter (\<lambda>(k, t). P t) (map (\<lambda>t. (g t, t)) ts)) = filter P ts"
  by (induction ts) simp_all

lemma ready_key_le:
  "ready_key a \<le> ready_key b \<Longrightarrow>
     priority b \<le> priority a \<and>
     (priority a = priority b \<longrightarrow> created_at (metadata a) \<le> created_at (metadata b))"
  unfolding ready_key_def less_eq_prod_simp by linarith

lemma example_task_sel [simp]:
  "task_id (example_task i s d p c) = i" "status (example_task i s d p c) = s"
  "depends_on (example_task i s d p c) = d" "priority (example_task i s d p c) = p"
  "created_at (metadata (example_task i s d p c)) = c"
  "blocked_by (example_task i s d p c) = []"
  by (simp_all add: example_task_def)

lemma valid_example_task [simp]:
  "valid_task (example_task i s d p c) \<longleftrightarrow> 1 \<le> p \<and> p \<le> 10 \<and> i \<noteq> []"
  by (simp add: valid_task_def)

section \<open>The dependency chain\<close>

lemma topo_listed_snoc:
  assumes "topo_listed E L" "\<forall>d. (n, d) \<in> E \<longrightarrow> d \<in> set L"
  shows "topo_listed E (L @ [n])"
  unfolding topo_listed_def
proof (intro allI impI)
  fix i d
  assume i: "i < length (L @ [n])" and e: "((L @ [n]) ! i, d) \<in> E"
  show "\<exists>j<i. (L @ [n]) ! j = d"
  proof (cases "i < length L")
    case True
    with e have "(L ! i, d) \<in> E" by (simp add: nth_append)
    with assms(1) True obtain j where "j < i" "L ! j = d"
      unfolding topo_listed_def by blast
    with True show ?thesis by (auto simp: nth_append intro!: exI [of _ j])
  next
    case False
    with i have il: "i = length L" by simp
    with e have "(n, d) \<in> E" by simp
    with assms(2) have "d \<in> set L" by blast
    then obtain j where "j < length L" "L ! j = d" by (auto simp: in_set_conv_nth)
    with il show ?thesis by (auto simp: nth_append intro!: exI [of _ j])
  qed
qed

lemma topo_listed_step:
  assumes "topo_listed E L" "n \<in> set L" "(n, m) \<in> E"
  shows "m \<in> set L"
proof -
  from assms(2) obtain i where i: "i < length L" "L ! i = n" by (auto simp: in_set_conv_nth)
  with assms(1,3) obtain j where "j < i" "L ! j = m" unfolding topo_listed_def by blast
  with i show ?thesis by (auto simp: in_set_conv_nth intro!: exI [of _ j])
qed

lemma topo_listed_closed:
  assumes "topo_listed E L" "(n, m) \<in> E\<^sup>*" "n \<in> set L"
  shows "m \<in> set L"
  using assms(2,3)
  by (induction rule: rtrancl_induct) (auto intro: topo_listed_step [OF assms(1)])

lemma in_dict_map_of: "in_dict k d \<Longrightarrow> \<exists>v. map_of d k = Some v"
  unfolding in_dict_def by (induction d) auto

lemma reach_insert_succs:
  "E\<^sup>* `` {n} = insert n (E\<^sup>* `` {d. (n, d) \<in> E})"
proof
  show "E\<^sup>* `` {n} \<subseteq> insert n (E\<^sup>* `` {d. (n, d) \<in> E})"
  proof
    fix m assume "m \<in> E\<^sup>* `` {n}"
    then have "(n, m) \<in> E\<^sup>*" by simp
    then show "m \<in> insert n (E\<^sup>* `` {d. (n, d) \<in> E})"
      by (cases rule: converse_rtranclE) auto
  qed
next
  show "insert n (E\<^sup>* `` {d. (n, d) \<in> E}) \<subseteq> E\<^sup>* `` {n}"
    by (auto intro: converse_rtrancl_into_rtrancl)
qed

lemma chain_inv_visit:
  "chain_inv td E (V, C) \<Longrightarrow> chain_inv td E (insert node V, C)"
  by (auto simp: chain_inv_def)

lemma chain_inv_closed:
  assumes "chain_inv td E s" "n \<in> task_id ` set (snd s)" "(n, m) \<in> E\<^sup>*"
  shows "m \<in> task_id ` set (snd s)"
proof -
  from assms(1) have "topo_listed E (map task_id (snd s))" by (simp add: chain_inv_def)
  from topo_listed_closed [OF this assms(3)] assms(2) show ?thesis by simp
qed

lemma dfs_chain_visited:
  assumes inv: "chain_inv td E (V, C)" and pre: "dfs_pre E {node} (V, C)"
    and v: "node \<in> V"
  shows "dfs_post td E {node} (V, C) (V, C)"
proof -
  from pre v have n: "node \<in> task_id ` set C" by (auto simp: dfs_pre_def)
  have r: "E\<^sup>* `` {node} \<subseteq> task_id ` set C"
    using chain_inv_closed [OF inv, of node] n by auto
  moreover from inv have "task_id ` set C \<subseteq> V" by (simp add: chain_inv_def)
  ultimately show ?thesis using inv by (auto simp: dfs_post_def)
qed

lemma dfs_pre_succs:
  assumes pre: "dfs_pre E {node} (V, C)" and nv: "node \<notin> V"
  shows "dfs_pre E {d. (node, d) \<in> E} (insert node V, C)"
  unfolding dfs_pre_def
proof (intro ballI conjI impI)
  fix n assume "n \<in> E\<^sup>* `` {d. (node, d) \<in> E}"
  then obtain d where d: "(node, d) \<in> E" "(d, n) \<in> E\<^sup>*" by auto
  then have rn: "(node, n) \<in> E\<^sup>*" by (auto intro: converse_rtrancl_into_rtrancl)
  with pre show "(n, n) \<notin> E\<^sup>+" by (auto simp: dfs_pre_def)
  assume nin: "n \<in> fst (insert node V, C)"
  have "n \<noteq> node"
  proof
    assume "n = node"
    with d have "(node, node) \<in> E\<^sup>+" by (auto intro: rtrancl_into_trancl2)
    with pre show False by (auto simp: dfs_pre_def)
  qed
  with nin have "n \<in> V" by simp
  with pre rn show "n \<in> task_id ` set (snd (insert node V, C))" by (auto simp: dfs_pre_def)
qed

lemma dfs_chain_emit:
  assumes pre: "dfs_pre E {node} (V, C)" and nv: "node \<notin> V"
    and inv: "chain_inv td E (V, C)"
    and post: "dfs_post td E {d. (node, d) \<in> E} (insert node V, C) (V1, C1)"
    and task: "map_of td node = Some task" "task_id task = node"
  shows "dfs_post td E {node} (V, C) (V1, C1 @ [task])"
proof -
  let ?S = "E\<^sup>* `` {d. (node, d) \<in> E}"
  have R: "E\<^sup>* `` {node} = insert node ?S" by (rule reach_insert_succs)
  from post have V1: "V1 = insert node V \<union> ?S"
    and I1: "task_id ` set C1 = task_id ` set C \<union> ?S"
    and inv1: "chain_inv td E (V1, C1)"
    unfolding dfs_post_def fst_conv snd_conv by blast+
  from inv have sub: "task_id ` set C \<subseteq> V" by (simp add: chain_inv_def)
  have nS: "node \<notin> ?S"
  proof
    assume "node \<in> ?S"
    then obtain d where "(node, d) \<in> E" "(d, node) \<in> E\<^sup>*" by auto
    then have "(node, node) \<in> E\<^sup>+" by (auto intro: rtrancl_into_trancl2)
    with pre show False by (auto simp: dfs_pre_def)
  qed
  with sub nv I1 have fresh: "node \<notin> task_id ` set C1" by auto
  have succs: "\<forall>d. (node, d) \<in> E \<longrightarrow> d \<in> set (map task_id C1)"
    using I1 by auto
  from inv1 have t1: "topo_listed E (map task_id C1)" by (simp add: chain_inv_def)
  have topo: "topo_listed E (map task_id (C1 @ [task]))"
    using topo_listed_snoc [OF t1 succs] task(2) by simp
  have "chain_inv td E (V1, C1 @ [task])"
    using inv1 fresh task topo V1 by (auto simp: chain_inv_def)
  moreover have "V1 = V \<union> E\<^sup>* `` {node}" using V1 R by auto
  moreover have "task_id ` set (C1 @ [task]) = task_id ` set C \<union> E\<^sup>* `` {node}"
    using I1 R task(2) by auto
  ultimately show ?thesis by (simp add: dfs_post_def)
qed

lemma dfs_pre_next:
  assumes pre: "dfs_pre E (insert d A) s" and post: "dfs_post td E {d} s s1"
  shows "dfs_pre E A s1"
  unfolding dfs_pre_def
proof (intro ballI conjI impI)
  fix n assume n: "n \<in> E\<^sup>* `` A"
  then have n': "n \<in> E\<^sup>* `` insert d A" by auto
  with pre show "(n, n) \<notin> E\<^sup>+" by (auto simp: dfs_pre_def)
  assume "n \<in> fst s1"
  with post have "n \<in> fst s \<or> n \<in> E\<^sup>* `` {d}" by (auto simp: dfs_post_def)
  then show "n \<in> task_id ` set (snd s1)"
  proof
    assume "n \<in> fst s"
    with pre n' have "n \<in> task_id ` set (snd s)" unfolding dfs_pre_def by blast
    with post show ?thesis by (auto simp: dfs_post_def)
  next
    assume "n \<in> E\<^sup>* `` {d}"
    with post show ?thesis by (auto simp: dfs_post_def)
  qed
qed

lemma dfs_post_trans:
  assumes "dfs_post td E {d} s s1" "dfs_post td E A s1 s2"
  shows "dfs_post td E (insert d A) s s2"
proof -
  have "E\<^sup>* `` insert d A = E\<^sup>* `` {d} \<union> E\<^sup>* `` A" by auto
  with assms show ?thesis by (auto simp: dfs_post_def)
qed

lemma dfs_pre_mono: "dfs_pre E A s \<Longrightarrow> B \<subseteq> A \<Longrightarrow> dfs_pre E B s"
  unfolding dfs_pre_def by blast

lemma dict_edges_succs:
  "{d. (node, d) \<in> dict_edges td adj} = {d \<in> set (adj_get adj node). in_dict d td}"
  by (auto simp: dict_edges_def)

lemma dfs_chain_correct:
  assumes G1: "\<forall>k t. map_of td k = Some t \<longrightarrow> task_id t = k"
  shows "in_dict node td \<Longrightarrow> chain_inv td (dict_edges td adj) s \<Longrightarrow>
           dfs_pre (dict_edges td adj) {node} s \<Longrightarrow>
           \<exists>s'. dfs_chain td adj node s = Inr s' \<and>
                dfs_post td (dict_edges td adj) {node} s s' \<and>
                (node \<notin> fst s \<longrightarrow> snd s' \<noteq> [] \<and> task_id (last (snd s')) = node)"
    and "chain_inv td (dict_edges td adj) s \<Longrightarrow>
           dfs_pre (dict_edges td adj) {d \<in> set ds. in_dict d td} s \<Longrightarrow>
           \<exists>s'. dfs_chain_deps td adj ds s = Inr s' \<and>
                dfs_post td (dict_edges td adj) {d \<in> set ds. in_dict d td} s s'"
  using G1
proof (induction td adj node s and td adj ds s rule: dfs_chain_dfs_chain_deps.induct)
  case (1 task_dict adj node visited chain)
  let ?E = "dict_edges task_dict adj"
  show ?case
  proof (cases "node \<in> visited")
    case True
    from dfs_chain_visited [OF "1.prems"(2,3) True] True show ?thesis by simp
  next
    case False
    have inv': "chain_inv task_dict ?E (insert node visited, chain)"
      by (rule chain_inv_visit [OF "1.prems"(2)])
    have pre': "dfs_pre ?E {d \<in> set (adj_get adj node). in_dict d task_dict}
                  (insert node visited, chain)"
      using dfs_pre_succs [OF "1.prems"(3) False] by (simp only: dict_edges_succs)
    from "1.IH" [OF False inv' pre' "1.prems"(4)] obtain s1 where
      run: "dfs_chain_deps task_dict adj (adj_get adj node) (insert node visited, chain) = Inr s1"
      and post: "dfs_post task_dict ?E {d \<in> set (adj_get adj node). in_dict d task_dict}
                   (insert node visited, chain) s1"
      by blast
    obtain V1 C1 where s1: "s1 = (V1, C1)" by (cases s1)
    from in_dict_map_of [OF "1.prems"(1)] obtain task where
      task: "map_of task_dict node = Some task" by blast
    with "1.prems"(4) have tid: "task_id task = node" by blast
    from post have post': "dfs_post task_dict ?E {d. (node, d) \<in> ?E}
                   (insert node visited, chain) (V1, C1)"
      by (simp only: dict_edges_succs s1)
    from dfs_chain_emit [OF "1.prems"(3) False "1.prems"(2) post' task tid]
    have "dfs_post task_dict ?E {node} (visited, chain) (V1, C1 @ [task])" .
    moreover have "dfs_chain task_dict adj node (visited, chain) = Inr (V1, C1 @ [task])"
      using False run s1 task by simp
    ultimately show ?thesis using tid by simp
  qed
next
  case (2 task_dict adj s)
  then show ?case by (simp add: dfs_post_def)
next
  case (3 task_dict adj dep_id deps s)
  let ?E = "dict_edges task_dict adj"
  let ?A = "{d \<in> set deps. in_dict d task_dict}"
  show ?case
  proof (cases "in_dict dep_id task_dict")
    case True
    then have A: "{d \<in> set (dep_id # deps). in_dict d task_dict} = insert dep_id ?A"
      by auto
    from "3.prems"(2) have pre: "dfs_pre ?E (insert dep_id ?A) s" by (simp only: A)
    then have pre1: "dfs_pre ?E {dep_id} s" by (rule dfs_pre_mono) simp
    from "3.IH"(1) [OF True True "3.prems"(1) pre1 "3.prems"(3)] obtain s1 where
      run1: "dfs_chain task_dict adj dep_id s = Inr s1"
      and post1: "dfs_post task_dict ?E {dep_id} s s1"
      by blast
    from post1 have inv1: "chain_inv task_dict ?E s1" by (simp add: dfs_post_def)
    have pre2: "dfs_pre ?E ?A s1" by (rule dfs_pre_next [OF pre post1])
    from "3.IH"(2) [OF True run1 inv1 pre2 "3.prems"(3)] obtain s2 where
      run2: "dfs_chain_deps task_dict adj deps s1 = Inr s2"
      and post2: "dfs_post task_dict ?E ?A s1 s2"
      by blast
    from dfs_post_trans [OF post1 post2] have "dfs_post task_dict ?E (insert dep_id ?A) s s2" .
    moreover have "dfs_chain_deps task_dict adj (dep_id # deps) s = Inr s2"
      using True run1 run2 by simp
    ultimately show ?thesis by (simp only: A) blast
  next
    case False
    then have A: "{d \<in> set (dep_id # deps). in_dict d task_dict} = ?A" by auto
    from "3.prems"(2) have pre: "dfs_pre ?E ?A s" by (simp only: A)
    from "3.IH"(3) [OF False "3.prems"(1) pre "3.prems"(3)] False show ?thesis
      by (simp only: A) simp
  qed
qed

section \<open>The two dicts of the graph\<close>

lemma build_adj_eq:
  "build_adj env ts =
     map (\<lambda>(k, t). (k, set_iteration env (depends_on t))) (build_task_dict ts)"
proof -
  have "build_adj env ts =
          foldl (\<lambda>d p. AList.update (fst p) (snd p) d) []
            (map (\<lambda>t. (task_id t, set_iteration env (depends_on t))) ts)"
    by (simp add: build_adj_def foldl_map)
  also have "\<dots> = map (\<lambda>(k, t). (k, set_iteration env (depends_on t))) (build_task_dict ts)"
    unfolding build_task_dict_def
    by (simp add: foldl_update_map_snd [where f = "\<lambda>t. set_iteration env (depends_on t)"])
  finally show ?thesis .
qed

lemma map_of_map_snd:
  "map_of (map (\<lambda>(k, v). (k, f v)) al) k = map_option f (map_of al k)"
  by (induction al) auto

lemma adj_get_build_adj:
  "adj_get (build_adj env ts) n =
     (case map_of (build_task_dict ts) n of
        None \<Rightarrow> [] | Some t \<Rightarrow> set_iteration env (depends_on t))"
  by (simp add: adj_get_def build_adj_eq map_of_map_snd split: option.splits)

lemma map_of_keyed_distinct:
  assumes "distinct (map task_id ts)"
  shows "map_of (map (\<lambda>t. (task_id t, t)) ts) n = Some t \<longleftrightarrow> t \<in> set ts \<and> task_id t = n"
proof -
  have keys: "map fst (map (\<lambda>t. (task_id t, t)) ts) = map task_id ts"
    by (induction ts) simp_all
  have "distinct (map fst (map (\<lambda>t. (task_id t, t)) ts))" unfolding keys by (rule assms)
  then have "map_of (map (\<lambda>t. (task_id t, t)) ts) n = Some t \<longleftrightarrow>
      (n, t) \<in> set (map (\<lambda>t. (task_id t, t)) ts)"
    by (rule map_of_eq_Some_iff)
  also have "\<dots> \<longleftrightarrow> t \<in> set ts \<and> task_id t = n"
    by (induction ts) auto
  finally show ?thesis .
qed

lemma map_of_build_task_dict_distinct:
  assumes "distinct (map task_id ts)"
  shows "map_of (build_task_dict ts) n = Some t \<longleftrightarrow> t \<in> set ts \<and> task_id t = n"
  unfolding build_task_dict_distinct [OF assms] by (rule map_of_keyed_distinct [OF assms])

lemma dict_edges_depends_edges:
  assumes it: "iterates_sets env"
    and d: "distinct (map task_id (load_all_tasks env st))"
  shows "dict_edges (build_task_dict (load_all_tasks env st))
           (build_adj env (load_all_tasks env st)) = depends_edges env st"
proof -
  let ?ts = "load_all_tasks env st"
  have "d' \<in> set (adj_get (build_adj env ?ts) n) \<longleftrightarrow>
          (\<exists>t \<in> set ?ts. task_id t = n \<and> d' \<in> set (depends_on t))" for n d'
  proof (cases "map_of (build_task_dict ?ts) n")
    case None
    then have "\<not> (t \<in> set ?ts \<and> task_id t = n)" for t
      using map_of_build_task_dict_distinct [OF d, of n t] by simp
    with None show ?thesis by (auto simp: adj_get_build_adj)
  next
    case (Some t)
    then have t: "t \<in> set ?ts" "task_id t = n"
      using map_of_build_task_dict_distinct [OF d, of n t] by simp_all
    have uniq: "u = t" if "u \<in> set ?ts" "task_id u = n" for u
      using that map_of_build_task_dict_distinct [OF d, of n u] Some by simp
    from it have "set (set_iteration env (depends_on t)) = set (depends_on t)"
      by (simp add: iterates_sets_def)
    with Some have "d' \<in> set (adj_get (build_adj env ?ts) n) \<longleftrightarrow> d' \<in> set (depends_on t)"
      by (simp add: adj_get_build_adj)
    also have "\<dots> \<longleftrightarrow> (\<exists>u \<in> set ?ts. task_id u = n \<and> d' \<in> set (depends_on u))"
      using t uniq by blast
    finally show ?thesis .
  qed
  then show ?thesis
    unfolding dict_edges_def depends_edges_def in_dict_build_task_dict by blast
qed

section \<open>The consistency check on small stores\<close>

lemma set_iteration_example: "set_iteration example_env = remdups"
  by (simp add: example_env_def)

lemma iterates_sets_example: "iterates_sets example_env"
  by (simp add: iterates_sets_def set_iteration_example)

text \<open>
  Two stores on which the check does return: a chain without cycle, and the cycle of two
  tasks with the message the source formats.
\<close>

lemma check_consistency_chain_ok:
  "check_consistency example_env
     (example_store [example_task ''m-1'' TODO [] 5 ''2025-01-01T09:00:00'',
                     example_task ''m-2'' TODO [''m-1''] 5 ''2025-01-02T09:00:00''])
   = Inr (True, [])"
proof -
  have l: "load_all_tasks example_env
     (example_store [example_task ''m-1'' TODO [] 5 ''2025-01-01T09:00:00'',
                     example_task ''m-2'' TODO [''m-1''] 5 ''2025-01-02T09:00:00'']) =
     [example_task ''m-1'' TODO [] 5 ''2025-01-01T09:00:00'',
      example_task ''m-2'' TODO [''m-1''] 5 ''2025-01-02T09:00:00'']"
    by (rule load_example_store) simp
  show ?thesis
    by (simp add: check_consistency_def build_graph_def Let_def l build_task_dict_def
        build_adj_def adj_get_def set_iteration_example missing_dependency_errors_def in_dict_def)
qed

lemma check_consistency_cycle:
  "check_consistency example_env
     (example_store [example_task ''A'' TODO [''B''] 5 ''2025-01-01T09:00:00'',
                     example_task ''B'' TODO [''A''] 5 ''2025-01-02T09:00:00''])
   = Inr (False, [''Circular dependency detected: A -> B -> A''])"
proof -
  have l: "load_all_tasks example_env
     (example_store [example_task ''A'' TODO [''B''] 5 ''2025-01-01T09:00:00'',
                     example_task ''B'' TODO [''A''] 5 ''2025-01-02T09:00:00'']) =
     [example_task ''A'' TODO [''B''] 5 ''2025-01-01T09:00:00'',
                     example_task ''B'' TODO [''A''] 5 ''2025-01-02T09:00:00'']"
    by (rule load_example_store) simp
  show ?thesis
    by (simp add: check_consistency_def build_graph_def Let_def l build_task_dict_def
        build_adj_def adj_get_def set_iteration_example missing_dependency_errors_def in_dict_def)
qed

section \<open>The blockers that the ready loop records\<close>

text \<open>
  When the loop of \<^verbatim>\<open>get_ready_tasks\<close> is over, the dict holds every \<open>todo\<close> task that is
  not ready with \<open>blocked_by\<close> set to its unresolved dependency ids, in the order of
  \<open>depends_on\<close>, and every other task as it was loaded.
\<close>

lemma update_in_middle:
  "k \<notin> fst ` set pre \<Longrightarrow> AList.update k v (pre @ (k, w) # rest) = pre @ (k, v) # rest"
  by (induction pre) auto

lemma ready_loop_fst:
  assumes "distinct (map fst td0)" "set items \<subseteq> set td0"
    "distinct (map fst (pre @ items))"
    "\<forall>k. map_option status (map_of (pre @ items) k) = map_option status (map_of td0 k)"
  shows "fst (ready_loop items (pre @ items, ready)) =
     pre @ map (\<lambda>(k, t). (k, if status t = TODO \<and> \<not> list_all (dep_resolved td0) (depends_on t)
                              then t\<lparr>blocked_by := filter (\<lambda>d. \<not> dep_resolved td0 d) (depends_on t)\<rparr>
                              else t)) items"
  using assms(2,3,4)
proof (induction items arbitrary: pre ready)
  case Nil
  then show ?case by simp
next
  case (Cons item items)
  obtain k task where item: "item = (k, task)" by (cases item)
  from Cons.prems(1) item assms(1) have m: "map_of td0 k = Some task" by simp
  from Cons.prems(1) have sub: "set items \<subseteq> set td0" by simp
  note dr = dep_resolved_cong [OF Cons.prems(3)]
  have split: "pre @ item # items = (pre @ [item]) @ items" by simp
  from Cons.prems(2) have dist': "distinct (map fst ((pre @ [item]) @ items))" by simp
  from Cons.prems(2) item have kpre: "k \<notin> fst ` set pre" by auto
  let ?blocked = "status task = TODO \<and> \<not> list_all (dep_resolved td0) (depends_on task)"
  show ?case
  proof (cases ?blocked)
    case False
    have "ready_loop (item # items) (pre @ item # items, ready) =
            ready_loop items ((pre @ [item]) @ items,
              if status task = TODO then ready @ [task] else ready)"
      using False item dr by (auto simp: check_deps_eq)
    moreover have "\<forall>k. map_option status (map_of ((pre @ [item]) @ items) k) =
                       map_option status (map_of td0 k)"
      using Cons.prems(3) by simp
    moreover have head:
      "(if ?blocked
        then task\<lparr>blocked_by := filter (\<lambda>d. \<not> dep_resolved td0 d) (depends_on task)\<rparr>
        else task) = task"
      using False by (rule if_not_P)
    ultimately show ?thesis
      using Cons.IH [OF sub dist', of "if status task = TODO then ready @ [task] else ready"]
      by (simp add: item head)
  next
    case True
    let ?task' = "task\<lparr>blocked_by := filter (\<lambda>d. \<not> dep_resolved td0 d) (depends_on task)\<rparr>"
    have upd: "AList.update k ?task' (pre @ item # items) = (pre @ [(k, ?task')]) @ items"
      using update_in_middle [OF kpre] item by simp
    have run: "ready_loop (item # items) (pre @ item # items, ready) =
            ready_loop items ((pre @ [(k, ?task')]) @ items, ready)"
      using True item dr upd by (simp add: check_deps_eq)
    have dist'': "distinct (map fst ((pre @ [(k, ?task')]) @ items))"
      using Cons.prems(2) item by simp
    have "map_of ((pre @ [(k, ?task')]) @ items) = (map_of (pre @ item # items))(k \<mapsto> ?task')"
      unfolding upd [symmetric] by (rule AList.update_conv')
    then have sv: "\<forall>k'. map_option status (map_of ((pre @ [(k, ?task')]) @ items) k') =
                       map_option status (map_of td0 k')"
      using Cons.prems(3) m by auto
    have head:
      "(if ?blocked
        then task\<lparr>blocked_by := filter (\<lambda>d. \<not> dep_resolved td0 d) (depends_on task)\<rparr>
        else task) = ?task'"
      using True by (rule if_P)
    from Cons.IH [OF sub dist'' sv, of ready] run show ?thesis by (simp add: item head)
  qed
qed

lemma get_ready_tasks_run_fst:
  "fst (get_ready_tasks_run env st) =
     map (\<lambda>(k, t).
            (k, if status t = TODO \<and>
                   \<not> list_all (dep_resolved (build_task_dict (load_all_tasks env st)))
                        (depends_on t)
                then t\<lparr>blocked_by :=
                         filter (\<lambda>d. \<not> dep_resolved (build_task_dict (load_all_tasks env st)) d)
                           (depends_on t)\<rparr>
                else t))
       (build_task_dict (load_all_tasks env st))"
proof -
  let ?td = "build_task_dict (load_all_tasks env st)"
  have d: "distinct (map fst ?td)" by (rule distinct_keys_build_task_dict)
  have d': "distinct (map fst ([] @ ?td))" using d by simp
  have sv: "\<forall>k. map_option status (map_of ([] @ ?td) k) = map_option status (map_of ?td k)"
    by simp
  from ready_loop_fst [OF d subset_refl d' sv, of "[]"] show ?thesis
    by (cases "ready_loop ?td (?td, [])")
       (simp add: get_ready_tasks_run_def build_graph_def Let_def)
qed

section \<open>Unique ids are kept\<close>

text \<open>
  The ids of the active tasks are pairwise different in the empty store, and every
  operation that writes the active log keeps them so.
\<close>

lemma task_ids_find_and_update:
  "map task_id (find_and_update ts t) =
     (if task_id t \<in> task_id ` set ts then map task_id ts else map task_id ts @ [task_id t])"
  by (induction ts) auto

lemma distinct_ids_save_task:
  assumes "valid_task t" "distinct (map task_id (load_all_tasks env st))"
  shows "distinct (map task_id (load_all_tasks env (fst (save_task env st t))))"
  using assms(2)
  by (auto simp: load_all_tasks_save [OF assms(1)] task_ids_find_and_update)

lemma distinct_ids_delete_task:
  assumes "distinct (map task_id (load_all_tasks env st))"
  shows "distinct (map task_id (load_all_tasks env (fst (delete_task env st i))))"
proof (cases "i \<in> task_id ` set (load_all_tasks env st)")
  case True
  from delete_task_removes(3) [OF True] assms show ?thesis
    by (simp add: distinct_map_filter)
next
  case False
  then have "filter (\<lambda>t. task_id t \<noteq> i) (load_all_tasks env st) = load_all_tasks env st"
    by (auto simp: filter_id_conv)
  with assms show ?thesis by (simp add: delete_task_def Let_def)
qed

lemma load_all_tasks_empty: "load_all_tasks env \<lparr>tasks_file = [], archive_file = a\<rparr> = []"
  by (simp add: load_all_tasks_def)

lemma distinct_ids_archive_task:
  assumes "distinct (map task_id (load_all_tasks env st))"
  shows "distinct (map task_id (load_all_tasks env (fst (archive_task env st i))))"
proof (cases "load_task env st i")
  case None
  with assms show ?thesis by (simp add: archive_task_def)
next
  case (Some t)
  have "distinct (map task_id
          (load_all_tasks env (st\<lparr>archive_file := archive_file st @ [Object t]\<rparr>)))"
    using assms by simp
  from distinct_ids_delete_task [OF this] Some show ?thesis by (simp add: archive_task_def)
qed

lemma distinct_ids_update_task_status:
  assumes "distinct (map task_id (load_all_tasks env st))"
  shows "distinct (map task_id
           (load_all_tasks env (fst (update_task_status env st i new_status auto_archive))))"
proof (cases "load_task env st i")
  case None
  with assms show ?thesis by (simp add: update_task_status_def)
next
  case (Some t)
  from load_task_valid(1) [OF Some] have v: "valid_task (t\<lparr>status := new_status\<rparr>)"
    by (simp add: valid_task_def)
  let ?st1 = "fst (save_task env st (t\<lparr>status := new_status\<rparr>))"
  have d1: "distinct (map task_id (load_all_tasks env ?st1))"
    by (rule distinct_ids_save_task [OF v assms])
  have "fst (update_task_status env st i new_status auto_archive) = ?st1 \<or>
        fst (update_task_status env st i new_status auto_archive) = fst (archive_task env ?st1 i)"
    using Some
    by (cases "save_task env st (t\<lparr>status := new_status\<rparr>)")
       (simp add: update_task_status_def Let_def)
  with d1 distinct_ids_archive_task [OF d1, of i] show ?thesis by auto
qed

section \<open>The consistency check\<close>

lemma cc_cycles_grow:
  "cc_dfs adj node s = Inr (b, s') \<Longrightarrow>
     (b \<or> snd (snd s) \<noteq> [] \<longrightarrow> snd (snd s') \<noteq> [])"
  "cc_neighbors adj node ns s = Inr (b, s') \<Longrightarrow>
     (b \<or> snd (snd s) \<noteq> [] \<longrightarrow> snd (snd s') \<noteq> [])"
proof (induction adj node s and adj node ns s arbitrary: b s' and b s'
    rule: cc_dfs_cc_neighbors.induct)
  case (1 adj node color path cycles)
  from "1.prems" have
    "cc_neighbors adj node (adj_get adj node)
       (AList.update node GRAY color, path @ [node], cycles) = Inr (b, s')" by simp
  from "1.IH" [OF this] show ?case by simp
next
  case (2 adj node color path cycles)
  then show ?case by (auto split: if_splits)
next
  case (3 adj node neighbor rest color path cycles)
  show ?case
  proof (cases "map_of color neighbor")
    case None
    with "3.prems" "3.IH"(1) [OF None] show ?thesis by simp
  next
    case (Some c)
    show ?thesis
    proof (cases c)
      case WHITE
      with Some "3.prems" obtain found s1 where
        s1: "cc_dfs adj neighbor (color, path, cycles) = Inr (found, s1)"
        by (auto split: sum.splits)
      from "3.IH"(2) [OF Some _ _ s1] WHITE
      have g1: "found \<or> cycles \<noteq> [] \<longrightarrow> snd (snd s1) \<noteq> []" by simp
      show ?thesis
      proof (cases found)
        case True
        with Some WHITE "3.prems" s1 have "s' = s1" "b" by simp_all
        with g1 True show ?thesis by simp
      next
        case False
        with Some WHITE "3.prems" s1 have "cc_neighbors adj node rest s1 = Inr (b, s')"
          by simp
        from "3.IH"(3) [OF Some _ _ s1 _ False this] WHITE g1 show ?thesis by auto
      qed
    next
      case GRAY
      with Some "3.prems" show ?thesis by (auto split: sum.splits)
    next
      case BLACK
      with Some "3.prems" "3.IH"(4) [OF Some] show ?thesis by simp
    qed
  qed
qed

lemma same_keys_refl: "same_keys c c"
  by (simp add: same_keys_def)

lemma same_keys_trans: "same_keys a b \<Longrightarrow> same_keys b c \<Longrightarrow> same_keys a c"
  by (simp add: same_keys_def)

lemma same_keys_update:
  "map_of color node \<noteq> None \<Longrightarrow> same_keys color (AList.update node c color)"
  by (auto simp: same_keys_def AList.update_conv')

lemma colour_edges_same_keys:
  "same_keys color color' \<Longrightarrow> colour_edges adj color' = colour_edges adj color"
  by (auto simp: colour_edges_def same_keys_def)

lemma settled_kept_trans:
  assumes "settled_kept X a b" "settled_kept Y b c" "X \<subseteq> Z" "Y \<subseteq> Z"
  shows "settled_kept Z a c"
  unfolding settled_kept_def
proof (intro allI impI)
  fix n assume n: "n \<notin> Z" and w: "map_of a n \<noteq> Some WHITE"
  from n assms(3,4) have "n \<notin> X" "n \<notin> Y" by auto
  with assms(1) w have ab: "map_of b n = map_of a n" by (simp add: settled_kept_def)
  with w have "map_of b n \<noteq> Some WHITE" by simp
  with assms(2) \<open>n \<notin> Y\<close> have "map_of c n = map_of b n" by (simp add: settled_kept_def)
  with ab show "map_of c n = map_of a n" by simp
qed

lemma finished_inv_gray:
  assumes "map_of color node = Some WHITE" "finished_inv adj color"
  shows "finished_inv adj (AList.update node GRAY color)"
proof -
  from assms(1) have "map_of color node \<noteq> None" by simp
  then have e: "colour_edges adj (AList.update node GRAY color) = colour_edges adj color"
    by (intro colour_edges_same_keys same_keys_update)
  have b: "{n. map_of (AList.update node GRAY color) n = Some BLACK} =
           {n. map_of color n = Some BLACK}"
    using assms(1) by (auto simp: AList.update_conv')
  from assms(2) show ?thesis unfolding finished_inv_def e b .
qed

lemma finished_inv_black:
  assumes g: "map_of color node = Some GRAY" and inv: "finished_inv adj color"
    and nbs: "\<forall>d \<in> set (adj_get adj node). map_of color d \<noteq> None \<longrightarrow> map_of color d = Some BLACK"
  shows "finished_inv adj (AList.update node BLACK color)"
proof -
  from g have "map_of color node \<noteq> None" by simp
  then have e: "colour_edges adj (AList.update node BLACK color) = colour_edges adj color"
    by (intro colour_edges_same_keys same_keys_update)
  have b: "{n. map_of (AList.update node BLACK color) n = Some BLACK} =
           insert node {n. map_of color n = Some BLACK}"
    by (auto simp: AList.update_conv')
  from inv obtain F where F: "distinct F" "set F = {n. map_of color n = Some BLACK}"
    "topo_listed (colour_edges adj color) F"
    unfolding finished_inv_def by blast
  from g F(2) have nF: "node \<notin> set F" by simp
  have "\<forall>d. (node, d) \<in> colour_edges adj color \<longrightarrow> d \<in> set F"
    using nbs F(2) by (auto simp: colour_edges_def)
  from topo_listed_snoc [OF F(3) this]
  have "topo_listed (colour_edges adj color) (F @ [node])" .
  moreover from F(1) nF have "distinct (F @ [node])" by simp
  moreover from F(2) have "set (F @ [node]) = insert node {n. map_of color n = Some BLACK}"
    by simp
  ultimately show ?thesis unfolding finished_inv_def e b by blast
qed

lemma cc_no_cycle_found:
  "map_of (fst s) node = Some WHITE \<Longrightarrow> finished_inv adj (fst s) \<Longrightarrow>
     cc_dfs adj node s = Inr (False, s') \<Longrightarrow>
     same_keys (fst s) (fst s') \<and> settled_kept {} (fst s) (fst s') \<and>
     finished_inv adj (fst s') \<and> map_of (fst s') node = Some BLACK \<and>
     no_new_gray (fst s) (fst s')"
  "map_of (fst s) node = Some GRAY \<Longrightarrow> finished_inv adj (fst s) \<Longrightarrow>
     \<forall>d \<in> set (adj_get adj node) - set ns.
        map_of (fst s) d \<noteq> None \<longrightarrow> map_of (fst s) d = Some BLACK \<Longrightarrow>
     cc_neighbors adj node ns s = Inr (False, s') \<Longrightarrow>
     same_keys (fst s) (fst s') \<and> settled_kept {node} (fst s) (fst s') \<and>
     finished_inv adj (fst s') \<and> map_of (fst s') node = Some BLACK \<and>
     no_new_gray (fst s) (fst s')"
proof (induction adj node s and adj node ns s arbitrary: s' and s'
    rule: cc_dfs_cc_neighbors.induct)
  case (1 adj node color path cycles)
  let ?c1 = "AList.update node GRAY color"
  from "1.prems"(1) have w: "map_of color node = Some WHITE" by simp
  from "1.prems"(2) have inv: "finished_inv adj color" by simp
  from "1.prems"(3) have run:
    "cc_neighbors adj node (adj_get adj node) (?c1, path @ [node], cycles) = Inr (False, s')"
    by simp
  have g: "map_of (fst (?c1, path @ [node], cycles)) node = Some GRAY"
    by (simp add: AList.update_conv')
  have inv1: "finished_inv adj (fst (?c1, path @ [node], cycles))"
    using finished_inv_gray [OF w inv] by simp
  have nbs: "\<forall>d \<in> set (adj_get adj node) - set (adj_get adj node).
        map_of (fst (?c1, path @ [node], cycles)) d \<noteq> None \<longrightarrow>
        map_of (fst (?c1, path @ [node], cycles)) d = Some BLACK"
    by simp
  from "1.IH" [OF g inv1 nbs run] have
    k: "same_keys ?c1 (fst s')" and st: "settled_kept {node} ?c1 (fst s')"
    and f: "finished_inv adj (fst s')" and b: "map_of (fst s') node = Some BLACK"
    and ng: "no_new_gray ?c1 (fst s')"
    by simp_all
  have ng': "no_new_gray color (fst s')"
    unfolding no_new_gray_def
  proof (intro allI impI)
    fix n assume n: "map_of (fst s') n = Some GRAY"
    with b have "n \<noteq> node" by auto
    with ng n show "map_of color n = Some GRAY"
      by (auto simp: no_new_gray_def AList.update_conv')
  qed
  from w have "map_of color node \<noteq> None" by simp
  from same_keys_trans [OF same_keys_update [OF this] k]
  have k': "same_keys color (fst s')" .
  have st': "settled_kept {} color (fst s')"
    unfolding settled_kept_def
  proof (intro allI impI)
    fix n assume nw: "map_of color n \<noteq> Some WHITE"
    with w have "n \<noteq> node" by auto
    with st nw show "map_of (fst s') n = map_of color n"
      by (simp add: settled_kept_def AList.update_conv')
  qed
  from k' st' f b ng' show ?case by simp
next
  case (2 adj node color path cycles)
  from "2.prems"(4) have s': "s' = (AList.update node BLACK color, butlast path, cycles)"
    by (auto split: if_splits)
  from "2.prems"(1) have g: "map_of color node = Some GRAY" by simp
  from "2.prems"(2) have inv: "finished_inv adj color" by simp
  from "2.prems"(3) have nbs:
    "\<forall>d \<in> set (adj_get adj node). map_of color d \<noteq> None \<longrightarrow> map_of color d = Some BLACK"
    by simp
  from g have "map_of color node \<noteq> None" by simp
  from same_keys_update [OF this] finished_inv_black [OF g inv nbs] show ?case
    by (simp add: s' settled_kept_def no_new_gray_def AList.update_conv')
next
  case (3 adj node neighbor rest color path cycles)
  from "3.prems"(1) have g: "map_of color node = Some GRAY" by simp
  from "3.prems"(2) have inv: "finished_inv adj color" by simp
  note nbs = "3.prems"(3) [unfolded fst_conv]
  note run = "3.prems"(4)
  show ?case
  proof (cases "map_of color neighbor")
    case None
    have nbs': "\<forall>d \<in> set (adj_get adj node) - set rest.
        map_of (fst (color, path, cycles)) d \<noteq> None \<longrightarrow>
        map_of (fst (color, path, cycles)) d = Some BLACK"
      using nbs None by auto
    from run None have "cc_neighbors adj node rest (color, path, cycles) = Inr (False, s')"
      by simp
    from "3.IH"(1) [OF None "3.prems"(1,2) nbs' this] show ?thesis .
  next
    case (Some c)
    show ?thesis
    proof (cases c)
      case WHITE
      with Some run obtain found s1 where
        s1: "cc_dfs adj neighbor (color, path, cycles) = Inr (found, s1)"
        by (auto split: sum.splits)
      have nf: "\<not> found"
      proof
        assume "found"
        with Some WHITE run s1 show False by simp
      qed
      with s1 have s1': "cc_dfs adj neighbor (color, path, cycles) = Inr (False, s1)" by simp
      from Some WHITE have w: "map_of (fst (color, path, cycles)) neighbor = Some WHITE"
        by simp
      from "3.IH"(2) [OF Some _ _ w "3.prems"(2) s1'] WHITE have
        k1: "same_keys color (fst s1)" and st1: "settled_kept {} color (fst s1)"
        and f1: "finished_inv adj (fst s1)" and b1: "map_of (fst s1) neighbor = Some BLACK"
        and ng1: "no_new_gray color (fst s1)"
        by simp_all
      from st1 g have g1: "map_of (fst s1) node = Some GRAY"
        by (simp add: settled_kept_def)
      have nbs1: "\<forall>d \<in> set (adj_get adj node) - set rest.
          map_of (fst s1) d \<noteq> None \<longrightarrow> map_of (fst s1) d = Some BLACK"
      proof (intro ballI impI)
        fix d assume d: "d \<in> set (adj_get adj node) - set rest"
          and dn: "map_of (fst s1) d \<noteq> None"
        show "map_of (fst s1) d = Some BLACK"
        proof (cases "d = neighbor")
          case True
          with b1 show ?thesis by simp
        next
          case False
          with d have "d \<in> set (adj_get adj node) - set (neighbor # rest)" by simp
          moreover from k1 have "map_of (fst s1) d = None \<longleftrightarrow> map_of color d = None"
            unfolding same_keys_def by (rule spec)
          with dn have "map_of color d \<noteq> None" by simp
          moreover note nbs
          ultimately have "map_of color d = Some BLACK" by blast
          with st1 show ?thesis by (simp add: settled_kept_def)
        qed
      qed
      from Some WHITE run s1 nf have run2: "cc_neighbors adj node rest s1 = Inr (False, s')"
        by simp
      from "3.IH"(3) [OF Some _ _ s1 _ nf g1 f1 nbs1 run2] WHITE have
        k2: "same_keys (fst s1) (fst s')" and st2: "settled_kept {node} (fst s1) (fst s')"
        and f2: "finished_inv adj (fst s')" and b2: "map_of (fst s') node = Some BLACK"
        and ng2: "no_new_gray (fst s1) (fst s')"
        by simp_all
      from ng1 ng2 have "no_new_gray color (fst s')" by (simp add: no_new_gray_def)
      with same_keys_trans [OF k1 k2] settled_kept_trans [OF st1 st2, of "{node}"] f2 b2
      show ?thesis by simp
    next
      case GRAY
      with Some run show ?thesis by (auto split: sum.splits)
    next
      case BLACK
      have nbs': "\<forall>d \<in> set (adj_get adj node) - set rest.
          map_of (fst (color, path, cycles)) d \<noteq> None \<longrightarrow>
          map_of (fst (color, path, cycles)) d = Some BLACK"
        using nbs Some BLACK by auto
      from run Some BLACK have
        "cc_neighbors adj node rest (color, path, cycles) = Inr (False, s')" by simp
      from "3.IH"(4) [OF Some _ _ "3.prems"(1,2) nbs' this] BLACK show ?thesis by simp
    qed
  qed
qed

lemma cc_roots_cycles_grow:
  "cc_roots adj roots (color, cycles) = Inr (color', cycles') \<Longrightarrow> cycles \<noteq> [] \<Longrightarrow>
     cycles' \<noteq> []"
proof (induction roots arbitrary: color cycles)
  case Nil
  then show ?case by simp
next
  case (Cons r roots)
  from Cons.prems(1) obtain c where c: "map_of color r = Some c"
    by (cases "map_of color r") simp_all
  show ?case
  proof (cases "c = WHITE")
    case True
    with c Cons.prems(1) obtain found c1 p1 cy1 where
      run: "cc_dfs adj r (color, [], cycles) = Inr (found, (c1, p1, cy1))"
      and rest: "cc_roots adj roots (c1, cy1) = Inr (color', cycles')"
      by (auto split: sum.splits)
    from cc_cycles_grow(1) [OF run] Cons.prems(2) have "cy1 \<noteq> []" by simp
    from Cons.IH [OF rest this] show ?thesis .
  next
    case False
    with c Cons.prems(1) have "cc_roots adj roots (color, cycles) = Inr (color', cycles')"
      by simp
    from Cons.IH [OF this Cons.prems(2)] show ?thesis .
  qed
qed

lemma cc_roots_no_cycle:
  assumes "finished_inv adj color" "\<forall>n. map_of color n \<noteq> Some GRAY"
    "cc_roots adj roots (color, []) = Inr (color', [])"
  shows "same_keys color color' \<and> finished_inv adj color' \<and>
         (\<forall>n. map_of color' n \<noteq> Some GRAY) \<and>
         (\<forall>r \<in> set roots. map_of color' r = Some BLACK) \<and>
         (\<forall>n. map_of color n = Some BLACK \<longrightarrow> map_of color' n = Some BLACK)"
  using assms
proof (induction roots arbitrary: color)
  case Nil
  then show ?case by (simp add: same_keys_refl)
next
  case (Cons r roots)
  from Cons.prems(3) obtain c where c: "map_of color r = Some c"
    by (cases "map_of color r") simp_all
  show ?case
  proof (cases "c = WHITE")
    case True
    with c Cons.prems(3) obtain found c1 p1 cy1 where
      run: "cc_dfs adj r (color, [], []) = Inr (found, (c1, p1, cy1))"
      and rest: "cc_roots adj roots (c1, cy1) = Inr (color', [])"
      by (auto split: sum.splits)
    have cy1: "cy1 = []"
    proof (rule ccontr)
      assume "cy1 \<noteq> []"
      from cc_roots_cycles_grow [OF rest this] show False by simp
    qed
    with cc_cycles_grow(1) [OF run] have nf: "\<not> found" by auto
    from c True have w: "map_of (fst (color, [], [])) r = Some WHITE" by simp
    from Cons.prems(1) have inv: "finished_inv adj (fst (color, [], []))" by simp
    from run nf have run': "cc_dfs adj r (color, [], []) = Inr (False, (c1, p1, cy1))" by simp
    from cc_no_cycle_found(1) [OF w inv run'] have
      k1: "same_keys color c1" and st1: "settled_kept {} color c1"
      and f1: "finished_inv adj c1" and b1: "map_of c1 r = Some BLACK"
      and ng1: "no_new_gray color c1"
      by simp_all
    from ng1 Cons.prems(2) have g1: "\<forall>n. map_of c1 n \<noteq> Some GRAY"
      unfolding no_new_gray_def by blast
    from rest cy1 have rest': "cc_roots adj roots (c1, []) = Inr (color', [])" by simp
    from Cons.IH [OF f1 g1 rest'] have
      k2: "same_keys c1 color'" and f2: "finished_inv adj color'"
      and g2: "\<forall>n. map_of color' n \<noteq> Some GRAY"
      and r2: "\<forall>r \<in> set roots. map_of color' r = Some BLACK"
      and b2: "\<forall>n. map_of c1 n = Some BLACK \<longrightarrow> map_of color' n = Some BLACK"
      by simp_all
    have b: "\<forall>n. map_of color n = Some BLACK \<longrightarrow> map_of color' n = Some BLACK"
    proof (intro allI impI)
      fix n assume "map_of color n = Some BLACK"
      with st1 have "map_of c1 n = Some BLACK" by (simp add: settled_kept_def)
      with b2 show "map_of color' n = Some BLACK" by blast
    qed
    from b1 b2 have "map_of color' r = Some BLACK" by blast
    with same_keys_trans [OF k1 k2] f2 g2 r2 b show ?thesis by simp
  next
    case False
    with c Cons.prems(2) have cb: "c = BLACK" by (cases c) auto
    from False c Cons.prems(3) have rest: "cc_roots adj roots (color, []) = Inr (color', [])"
      by simp
    from Cons.IH [OF Cons.prems(1,2) rest] c cb show ?thesis by simp
  qed
qed

lemma first_index_less:
  "a \<in> set F \<Longrightarrow> length (takeWhile (\<lambda>x. x \<noteq> a) F) < length F"
  by (induction F) auto

lemma topo_listed_acyclic:
  assumes t: "topo_listed E F" and dom: "\<forall>a b. (a, b) \<in> E \<longrightarrow> a \<in> set F"
  shows "acyclic E"
proof -
  let ?rank = "\<lambda>a. length (takeWhile (\<lambda>x. x \<noteq> a) F)"
  have "E\<inverse> \<subseteq> measure ?rank"
  proof
    fix p assume "p \<in> E\<inverse>"
    then obtain a b where p: "p = (b, a)" and e: "(a, b) \<in> E" by auto
    from dom e have a: "a \<in> set F" by blast
    then have la: "?rank a < length F" by (rule first_index_less)
    from nth_length_takeWhile [OF la] have fa: "F ! ?rank a = a" by simp
    with t la e obtain j where j: "j < ?rank a" "F ! j = b"
      unfolding topo_listed_def by metis
    have "?rank b \<le> j"
    proof (rule ccontr)
      assume "\<not> ?rank b \<le> j"
      then have lt: "j < length (takeWhile (\<lambda>x. x \<noteq> b) F)" by simp
      then have "takeWhile (\<lambda>x. x \<noteq> b) F ! j \<in> set (takeWhile (\<lambda>x. x \<noteq> b) F)"
        by (rule nth_mem)
      then have "takeWhile (\<lambda>x. x \<noteq> b) F ! j \<noteq> b" by (rule set_takeWhileD [THEN conjunct2])
      with takeWhile_nth [OF lt] j(2) show False by simp
    qed
    with j(1) show "p \<in> measure ?rank" by (simp add: p)
  qed
  then have "wf (E\<inverse>)" by (rule wf_subset [OF wf_measure])
  then have "acyclic (E\<inverse>)" by (rule wf_acyclic)
  then show ?thesis by simp
qed

lemma cc_acyclic_run:
  assumes ac: "acyclic (colour_edges adj c0)"
  shows
  "map_of (fst s) node = Some WHITE \<Longrightarrow> same_keys c0 (fst s) \<Longrightarrow>
     on_path (fst s) (fst (snd s)) \<Longrightarrow>
     \<forall>p \<in> set (fst (snd s)). (p, node) \<in> (colour_edges adj c0)\<^sup>+ \<Longrightarrow>
     \<exists>color'. cc_dfs adj node s = Inr (False, (color', snd s)) \<and>
        same_keys c0 color' \<and> same_gray {} (fst s) color'"
  "map_of (fst s) node = Some GRAY \<Longrightarrow> same_keys c0 (fst s) \<Longrightarrow>
     on_path (fst s) (fst (snd s)) \<Longrightarrow>
     \<forall>p \<in> set (fst (snd s)). (p, node) \<in> (colour_edges adj c0)\<^sup>* \<Longrightarrow>
     set ns \<subseteq> set (adj_get adj node) \<Longrightarrow>
     \<exists>color'. cc_neighbors adj node ns s =
                 Inr (False, (color', butlast (fst (snd s)), snd (snd s))) \<and>
        same_keys c0 color' \<and> same_gray {node} (fst s) color'"
  using ac
proof (induction adj node s and adj node ns s rule: cc_dfs_cc_neighbors.induct)
  case (1 adj node color path cycles)
  let ?E = "colour_edges adj c0"
  let ?c1 = "AList.update node GRAY color"
  from "1.prems"(1) have w: "map_of color node = Some WHITE" by simp
  from "1.prems"(2) have k: "same_keys c0 color" by simp
  from "1.prems"(3) have op: "on_path color path" by simp
  from w have nn: "map_of color node \<noteq> None" by simp
  have g: "map_of (fst (?c1, path @ [node], cycles)) node = Some GRAY"
    by (simp add: AList.update_conv')
  have k1: "same_keys c0 (fst (?c1, path @ [node], cycles))"
    using same_keys_trans [OF k same_keys_update [OF nn]] by simp
  have op1: "on_path (fst (?c1, path @ [node], cycles)) (fst (snd (?c1, path @ [node], cycles)))"
    using op by (auto simp: on_path_def AList.update_conv')
  have reach: "\<forall>p \<in> set (fst (snd (?c1, path @ [node], cycles))). (p, node) \<in> ?E\<^sup>*"
    using "1.prems"(4) by auto
  from "1.IH" [OF g k1 op1 reach subset_refl "1.prems"(5)] obtain color' where
    run: "cc_neighbors adj node (adj_get adj node) (?c1, path @ [node], cycles) =
            Inr (False, (color', path, cycles))"
    and k': "same_keys c0 color'" and sg: "same_gray {node} ?c1 color'"
    by auto
  have "same_gray {} color color'"
    using sg w by (auto simp: same_gray_def AList.update_conv')
  with run k' show ?case by simp
next
  case (2 adj node color path cycles)
  from "2.prems"(1) have g: "map_of color node = Some GRAY" by simp
  with "2.prems"(3) have "path \<noteq> []" by (auto simp: on_path_def)
  moreover from g have "map_of color node \<noteq> None" by simp
  from same_keys_trans [OF _ same_keys_update [OF this]] "2.prems"(2)
  have "same_keys c0 (AList.update node BLACK color)" by simp
  moreover have "same_gray {node} color (AList.update node BLACK color)"
    by (auto simp: same_gray_def AList.update_conv')
  ultimately show ?case by simp
next
  case (3 adj node neighbor rest color path cycles)
  let ?E = "colour_edges adj c0"
  from "3.prems"(1) have g: "map_of color node = Some GRAY" by simp
  from "3.prems"(2) have k: "same_keys c0 color" by simp
  from "3.prems"(3) have op: "on_path color path" by simp
  from "3.prems"(4) have reach: "\<forall>p \<in> set path. (p, node) \<in> ?E\<^sup>*" by simp
  from "3.prems"(5) have nb: "neighbor \<in> set (adj_get adj node)"
    and sub: "set rest \<subseteq> set (adj_get adj node)" by simp_all
  note ac = "3.prems"(6)
  show ?case
  proof (cases "map_of color neighbor")
    case None
    from "3.IH"(1) [OF None "3.prems"(1,2,3,4) sub ac] None show ?thesis by simp
  next
    case (Some c)
    from k have "map_of color neighbor = None \<longleftrightarrow> map_of c0 neighbor = None"
      unfolding same_keys_def by (rule spec)
    with Some have "map_of c0 neighbor \<noteq> None" by simp
    with nb have edge: "(node, neighbor) \<in> ?E" by (simp add: colour_edges_def)
    show ?thesis
    proof (cases c)
      case GRAY
      with Some op have "neighbor \<in> set path" by (simp add: on_path_def)
      with reach have "(neighbor, node) \<in> ?E\<^sup>*" by blast
      from this edge have "(neighbor, neighbor) \<in> ?E\<^sup>+" by (rule rtrancl_into_trancl1)
      with ac show ?thesis by (simp add: acyclic_def)
    next
      case WHITE
      from Some WHITE have w: "map_of (fst (color, path, cycles)) neighbor = Some WHITE"
        by simp
      have reach': "\<forall>p \<in> set (fst (snd (color, path, cycles))). (p, neighbor) \<in> ?E\<^sup>+"
        using reach edge by (auto intro: rtrancl_into_trancl1)
      from "3.IH"(2) [OF Some _ _ w "3.prems"(2,3) reach' ac] WHITE obtain c1 where
        run1: "cc_dfs adj neighbor (color, path, cycles) = Inr (False, (c1, path, cycles))"
        and k1: "same_keys c0 c1" and sg1: "same_gray {} color c1"
        by auto
      from sg1 g have g1: "map_of (fst (c1, path, cycles)) node = Some GRAY"
        by (simp add: same_gray_def)
      from sg1 op have op1: "on_path (fst (c1, path, cycles)) (fst (snd (c1, path, cycles)))"
        by (simp add: same_gray_def on_path_def)
      have k1': "same_keys c0 (fst (c1, path, cycles))" using k1 by simp
      have reach1: "\<forall>p \<in> set (fst (snd (c1, path, cycles))). (p, node) \<in> ?E\<^sup>*"
        using reach by simp
      from "3.IH"(3) [OF Some _ _ run1 _ _ g1 k1' op1 reach1 sub ac] WHITE obtain c2 where
        run2: "cc_neighbors adj node rest (c1, path, cycles) =
                 Inr (False, (c2, butlast path, cycles))"
        and k2: "same_keys c0 c2" and sg2: "same_gray {node} c1 c2"
        by auto
      from sg1 sg2 have "same_gray {node} color c2" by (simp add: same_gray_def)
      with Some WHITE run1 run2 k2 show ?thesis by simp
    next
      case BLACK
      from "3.IH"(4) [OF Some _ _ "3.prems"(1,2,3,4) sub ac] Some BLACK show ?thesis by simp
    qed
  qed
qed

lemma cc_roots_acyclic:
  assumes "acyclic (colour_edges adj c0)" "same_keys c0 color"
    "\<forall>n. map_of color n \<noteq> Some GRAY" "\<forall>r \<in> set roots. map_of c0 r \<noteq> None"
  shows "\<exists>color'. cc_roots adj roots (color, cycles) = Inr (color', cycles) \<and>
           same_keys c0 color' \<and> (\<forall>n. map_of color' n \<noteq> Some GRAY)"
  using assms(2,3,4)
proof (induction roots arbitrary: color)
  case Nil
  then show ?case by simp
next
  case (Cons r roots)
  from Cons.prems(1) have "map_of color r = None \<longleftrightarrow> map_of c0 r = None"
    unfolding same_keys_def by (rule spec)
  with Cons.prems(3) obtain c where c: "map_of color r = Some c" by auto
  from Cons.prems(3) have rs: "\<forall>r \<in> set roots. map_of c0 r \<noteq> None" by simp
  show ?case
  proof (cases "c = WHITE")
    case True
    with c have w: "map_of (fst (color, [], cycles)) r = Some WHITE" by simp
    have k: "same_keys c0 (fst (color, [], cycles))" using Cons.prems(1) by simp
    have op: "on_path (fst (color, [], cycles)) (fst (snd (color, [], cycles)))"
      using Cons.prems(2) by (simp add: on_path_def)
    have reach: "\<forall>p \<in> set (fst (snd (color, [], cycles))). (p, r) \<in> (colour_edges adj c0)\<^sup>+"
      by simp
    from cc_acyclic_run(1) [OF assms(1) w k op reach] obtain c1 where
      run: "cc_dfs adj r (color, [], cycles) = Inr (False, (c1, [], cycles))"
      and k1: "same_keys c0 c1" and sg: "same_gray {} color c1"
      by auto
    from sg Cons.prems(2) have g1: "\<forall>n. map_of c1 n \<noteq> Some GRAY"
      by (simp add: same_gray_def)
    from Cons.IH [OF k1 g1 rs] c True run show ?thesis by simp
  next
    case False
    with Cons.IH [OF Cons.prems(1,2) rs] c show ?thesis by simp
  qed
qed

lemma map_of_all_white:
  "map_of (map (\<lambda>(k, t). (k, WHITE)) td) n = map_option (\<lambda>t. WHITE) (map_of td n)"
  by (induction td) auto

lemma in_dict_iff_map_of: "in_dict k d \<longleftrightarrow> map_of d k \<noteq> None"
  by (simp add: in_dict_def map_of_eq_None_iff)

lemma colour_edges_initial:
  "colour_edges adj (map (\<lambda>(k, t). (k, WHITE)) td) = dict_edges td adj"
  by (auto simp: colour_edges_def dict_edges_def map_of_all_white in_dict_iff_map_of)

lemma missing_dependency_errors_Nil:
  "missing_dependency_errors td = [] \<longleftrightarrow>
     (\<forall>p \<in> set td. \<forall>d \<in> set (depends_on (snd p)). in_dict d td)"
  by (auto simp: missing_dependency_errors_def filter_empty_conv split: prod.splits)

lemma no_dangling_distinct:
  assumes "distinct (map task_id ts)"
  shows "(\<forall>p \<in> set (build_task_dict ts). \<forall>d \<in> set (depends_on (snd p)).
            in_dict d (build_task_dict ts)) \<longleftrightarrow>
         (\<forall>t \<in> set ts. set (depends_on t) \<subseteq> task_id ` set ts)"
proof -
  have "set (build_task_dict ts) = (\<lambda>t. (task_id t, t)) ` set ts"
    by (simp add: build_task_dict_distinct [OF assms])
  then show ?thesis
    by (auto simp: in_dict_build_task_dict)
qed

lemma check_consistency_unfold:
  "check_consistency env st =
     (case cc_roots (build_adj env (load_all_tasks env st))
             (map fst (build_task_dict (load_all_tasks env st)))
             (map (\<lambda>(k, t). (k, WHITE)) (build_task_dict (load_all_tasks env st)), []) of
        Inl e \<Rightarrow> Inl e
      | Inr (color, cycles) \<Rightarrow>
          Inr (cycles @ missing_dependency_errors (build_task_dict (load_all_tasks env st)) = [],
               cycles @ missing_dependency_errors (build_task_dict (load_all_tasks env st))))"
  by (simp add: check_consistency_def build_graph_def Let_def split: sum.splits prod.splits)

text \<open>
  On an acyclic graph without dangling dependency the check returns \<open>(True, [])\<close>; it
  raises nothing there.
\<close>

lemma check_consistency_dag:
  assumes it: "iterates_sets env"
    and d: "distinct (map task_id (load_all_tasks env st))"
    and ac: "acyclic (depends_edges env st)"
    and nd: "\<forall>t \<in> set (load_all_tasks env st).
               set (depends_on t) \<subseteq> task_id ` set (load_all_tasks env st)"
  shows "check_consistency env st = Inr (True, [])"
proof -
  let ?ts = "load_all_tasks env st"
  let ?td = "build_task_dict ?ts"
  let ?adj = "build_adj env ?ts"
  let ?c0 = "map (\<lambda>(k, t). (k, WHITE)) ?td"
  have E: "colour_edges ?adj ?c0 = depends_edges env st"
    unfolding colour_edges_initial by (rule dict_edges_depends_edges [OF it d])
  have ac0: "acyclic (colour_edges ?adj ?c0)" unfolding E by (rule ac)
  have ng: "\<forall>n. map_of ?c0 n \<noteq> Some GRAY"
    by (auto simp: map_of_all_white)
  have roots: "\<forall>r \<in> set (map fst ?td). map_of ?c0 r \<noteq> None"
    by (auto simp: map_of_all_white map_of_eq_None_iff)
  from cc_roots_acyclic [OF ac0 same_keys_refl ng roots, of "[]"] obtain color' where
    run: "cc_roots ?adj (map fst ?td) (?c0, []) = Inr (color', [])" by blast
  from nd have "missing_dependency_errors ?td = []"
    unfolding missing_dependency_errors_Nil no_dangling_distinct [OF d] .
  with run show ?thesis by (simp add: check_consistency_unfold)
qed

text \<open>
  When the check answers \<open>True\<close>, the graph is acyclic and no dependency dangles.
\<close>

lemma check_consistency_ok_dag:
  assumes it: "iterates_sets env"
    and d: "distinct (map task_id (load_all_tasks env st))"
    and ok: "check_consistency env st = Inr (True, errors)"
  shows "acyclic (depends_edges env st)"
    and "\<forall>t \<in> set (load_all_tasks env st).
           set (depends_on t) \<subseteq> task_id ` set (load_all_tasks env st)"
proof -
  let ?ts = "load_all_tasks env st"
  let ?td = "build_task_dict ?ts"
  let ?adj = "build_adj env ?ts"
  let ?c0 = "map (\<lambda>(k, t). (k, WHITE)) ?td"
  from ok obtain color' cycles where
    run: "cc_roots ?adj (map fst ?td) (?c0, []) = Inr (color', cycles)"
    and e: "cycles @ missing_dependency_errors ?td = []"
    unfolding check_consistency_unfold by (auto split: sum.splits)
  from e have cy: "cycles = []" and miss: "missing_dependency_errors ?td = []" by simp_all
  from miss show "\<forall>t \<in> set ?ts. set (depends_on t) \<subseteq> task_id ` set ?ts"
    unfolding missing_dependency_errors_Nil no_dangling_distinct [OF d] .
  have E: "colour_edges ?adj ?c0 = depends_edges env st"
    unfolding colour_edges_initial by (rule dict_edges_depends_edges [OF it d])
  have ng: "\<forall>n. map_of ?c0 n \<noteq> Some GRAY"
    by (auto simp: map_of_all_white)
  have fin0: "finished_inv ?adj ?c0"
    unfolding finished_inv_def
    by (rule exI [of _ "[]"]) (auto simp: map_of_all_white topo_listed_def)
  from run cy have run': "cc_roots ?adj (map fst ?td) (?c0, []) = Inr (color', [])" by simp
  from cc_roots_no_cycle [OF fin0 ng run'] have
    k: "same_keys ?c0 color'" and fin: "finished_inv ?adj color'"
    and black: "\<forall>r \<in> set (map fst ?td). map_of color' r = Some BLACK"
    by simp_all
  from fin obtain F where F: "set F = {n. map_of color' n = Some BLACK}"
    and topo: "topo_listed (colour_edges ?adj color') F"
    unfolding finished_inv_def by blast
  have E': "colour_edges ?adj color' = depends_edges env st"
    unfolding colour_edges_same_keys [OF k] by (rule E)
  have "\<forall>a b. (a, b) \<in> depends_edges env st \<longrightarrow> a \<in> set F"
  proof (intro allI impI)
    fix a b assume "(a, b) \<in> depends_edges env st"
    then have "a \<in> task_id ` set ?ts" by (auto simp: depends_edges_def)
    then have "a \<in> set (map fst ?td)" by (simp add: keys_build_task_dict)
    with black F show "a \<in> set F" by blast
  qed
  from topo_listed_acyclic [OF topo [unfolded E'] this]
  show "acyclic (depends_edges env st)" .
qed

text \<open>
  So whenever the check returns a pair \<open>(ok, errors)\<close>, \<open>ok\<close> says that \<open>errors\<close> is empty
  and that the graph is acyclic with every dependency present.
\<close>

lemma check_consistency_when_it_returns:
  assumes it: "iterates_sets env"
    and d: "distinct (map task_id (load_all_tasks env st))"
    and r: "check_consistency env st = Inr (ok, errors)"
  shows "(ok \<longleftrightarrow> errors = []) \<and>
         (ok \<longleftrightarrow> acyclic (depends_edges env st) \<and>
                (\<forall>t \<in> set (load_all_tasks env st).
                   set (depends_on t) \<subseteq> task_id ` set (load_all_tasks env st)))"
proof -
  from r have oe: "ok \<longleftrightarrow> errors = []"
    unfolding check_consistency_unfold by (auto split: sum.splits)
  have "ok \<longleftrightarrow> acyclic (depends_edges env st) \<and>
                (\<forall>t \<in> set (load_all_tasks env st).
                   set (depends_on t) \<subseteq> task_id ` set (load_all_tasks env st))"
  proof
    assume ok
    with r have "check_consistency env st = Inr (True, errors)" by simp
    from check_consistency_ok_dag [OF it d this] show
      "acyclic (depends_edges env st) \<and>
                (\<forall>t \<in> set (load_all_tasks env st).
                   set (depends_on t) \<subseteq> task_id ` set (load_all_tasks env st))"
      by blast
  next
    assume "acyclic (depends_edges env st) \<and>
                (\<forall>t \<in> set (load_all_tasks env st).
                   set (depends_on t) \<subseteq> task_id ` set (load_all_tasks env st))"
    then have "check_consistency env st = Inr (True, [])"
      using check_consistency_dag [OF it d] by blast
    with r show ok by simp
  qed
  with oe show ?thesis by blast
qed

section \<open>Stores reached through the facade\<close>

text \<open>
  From the empty store, \<^verbatim>\<open>create_task("A")\<close> and \<^verbatim>\<open>create_task("B", depends_on=[A.id])\<close> give
  two records. \<^verbatim>\<open>update_task(A.id, depends_on=[A.id])\<close> then makes the store on which
  \<open>check_consistency\<close> raises; \<^verbatim>\<open>update_task(A.id, priority=0)\<close> instead writes a record that
  no later load accepts, so that task \<open>A\<close> is gone from the active set.
\<close>

lemma store_A_B_eq:
  "tasks_file store_A_B =
     [Object \<lparr>task_id = ''m-a1b2c3'', title = ''A'', description = [], status = TODO,
              depends_on = [], blocked_by = [], tags = [], priority = 5,
              metadata = \<lparr>branch = ''main'', commit_hash = ''1a2b3c4'',
                          created_at = ''2025-03-01T12:00:00'',
                          updated_at = ''2025-03-01T12:00:00''\<rparr>\<rparr>,
      Object \<lparr>task_id = ''m-d4e5f6'', title = ''B'', description = [], status = TODO,
              depends_on = [''m-a1b2c3''], blocked_by = [], tags = [], priority = 5,
              metadata = \<lparr>branch = ''main'', commit_hash = ''1a2b3c4'',
                          created_at = ''2025-03-01T12:00:00'',
                          updated_at = ''2025-03-01T12:00:00''\<rparr>\<rparr>]"
  by (simp add: store_A_B_def create_task_def Task_init_def generate_id_if_empty_def
      save_task_def Let_def load_all_tasks_def write_tasks_def update_git_metadata_def
      example_env_def)

lemma check_consistency_raises_after_update:
  "check_consistency example_env
     (fst (update_task example_env store_A_B ''m-a1b2c3''
             None None (Some [''m-a1b2c3'']) None None None)) = Inl ValueError"
proof -
  have l: "load_all_tasks example_env store_A_B =
     [\<lparr>task_id = ''m-a1b2c3'', title = ''A'', description = [], status = TODO,
              depends_on = [], blocked_by = [], tags = [], priority = 5,
              metadata = \<lparr>branch = ''main'', commit_hash = ''1a2b3c4'',
                          created_at = ''2025-03-01T12:00:00'',
                          updated_at = ''2025-03-01T12:00:00''\<rparr>\<rparr>,
      \<lparr>task_id = ''m-d4e5f6'', title = ''B'', description = [], status = TODO,
              depends_on = [''m-a1b2c3''], blocked_by = [], tags = [], priority = 5,
              metadata = \<lparr>branch = ''main'', commit_hash = ''1a2b3c4'',
                          created_at = ''2025-03-01T12:00:00'',
                          updated_at = ''2025-03-01T12:00:00''\<rparr>\<rparr>]"
    by (simp add: load_all_tasks_def store_A_B_eq Task_init_def generate_id_if_empty_def)
  have l': "load_all_tasks example_env
     (fst (update_task example_env store_A_B ''m-a1b2c3''
             None None (Some [''m-a1b2c3'']) None None None)) =
     [\<lparr>task_id = ''m-a1b2c3'', title = ''A'', description = [], status = TODO,
              depends_on = [''m-a1b2c3''], blocked_by = [], tags = [], priority = 5,
              metadata = \<lparr>branch = get_current_branch example_env,
                          commit_hash = get_current_commit example_env,
                          created_at = ''2025-03-01T12:00:00'',
                          updated_at = isoformat_now example_env\<rparr>\<rparr>,
      \<lparr>task_id = ''m-d4e5f6'', title = ''B'', description = [], status = TODO,
              depends_on = [''m-a1b2c3''], blocked_by = [], tags = [], priority = 5,
              metadata = \<lparr>branch = ''main'', commit_hash = ''1a2b3c4'',
                          created_at = ''2025-03-01T12:00:00'',
                          updated_at = ''2025-03-01T12:00:00''\<rparr>\<rparr>]"
    by (simp add: update_task_def load_task_def l save_task_def Let_def write_tasks_def
        update_git_metadata_def load_all_tasks_def [of _ "_\<lparr>tasks_file := _\<rparr>"]
        Task_init_def generate_id_if_empty_def)
  show ?thesis
    by (simp add: check_consistency_def build_graph_def Let_def l' build_task_dict_def
        build_adj_def adj_get_def set_iteration_example)
qed

lemma example_env_sel:
  "get_current_branch example_env = ''main''" "get_current_commit example_env = ''1a2b3c4''"
  "isoformat_now example_env = ''2025-03-01T12:00:00''"
  by (simp_all add: example_env_def)

lemma invalid_record_after_update:
  "tasks_file (fst (update_task example_env store_A_B ''m-a1b2c3''
                      None None None None (Some 0) None)) =
     [Object \<lparr>task_id = ''m-a1b2c3'', title = ''A'', description = [], status = TODO,
              depends_on = [], blocked_by = [], tags = [], priority = 0,
              metadata = \<lparr>branch = ''main'', commit_hash = ''1a2b3c4'',
                          created_at = ''2025-03-01T12:00:00'',
                          updated_at = ''2025-03-01T12:00:00''\<rparr>\<rparr>,
      Object \<lparr>task_id = ''m-d4e5f6'', title = ''B'', description = [], status = TODO,
              depends_on = [''m-a1b2c3''], blocked_by = [], tags = [], priority = 5,
              metadata = \<lparr>branch = ''main'', commit_hash = ''1a2b3c4'',
                          created_at = ''2025-03-01T12:00:00'',
                          updated_at = ''2025-03-01T12:00:00''\<rparr>\<rparr>]"
  "map task_id (load_all_tasks example_env
     (fst (update_task example_env store_A_B ''m-a1b2c3''
             None None None None (Some 0) None))) = [''m-d4e5f6'']"
proof -
  have l: "load_all_tasks example_env store_A_B =
     [\<lparr>task_id = ''m-a1b2c3'', title = ''A'', description = [], status = TODO,
              depends_on = [], blocked_by = [], tags = [], priority = 5,
              metadata = \<lparr>branch = ''main'', commit_hash = ''1a2b3c4'',
                          created_at = ''2025-03-01T12:00:00'',
                          updated_at = ''2025-03-01T12:00:00''\<rparr>\<rparr>,
      \<lparr>task_id = ''m-d4e5f6'', title = ''B'', description = [], status = TODO,
              depends_on = [''m-a1b2c3''], blocked_by = [], tags = [], priority = 5,
              metadata = \<lparr>branch = ''main'', commit_hash = ''1a2b3c4'',
                          created_at = ''2025-03-01T12:00:00'',
                          updated_at = ''2025-03-01T12:00:00''\<rparr>\<rparr>]"
    by (simp add: load_all_tasks_def store_A_B_eq Task_init_def generate_id_if_empty_def)
  show f: "tasks_file (fst (update_task example_env store_A_B ''m-a1b2c3''
                      None None None None (Some 0) None)) =
     [Object \<lparr>task_id = ''m-a1b2c3'', title = ''A'', description = [], status = TODO,
              depends_on = [], blocked_by = [], tags = [], priority = 0,
              metadata = \<lparr>branch = ''main'', commit_hash = ''1a2b3c4'',
                          created_at = ''2025-03-01T12:00:00'',
                          updated_at = ''2025-03-01T12:00:00''\<rparr>\<rparr>,
      Object \<lparr>task_id = ''m-d4e5f6'', title = ''B'', description = [], status = TODO,
              depends_on = [''m-a1b2c3''], blocked_by = [], tags = [], priority = 5,
              metadata = \<lparr>branch = ''main'', commit_hash = ''1a2b3c4'',
                          created_at = ''2025-03-01T12:00:00'',
                          updated_at = ''2025-03-01T12:00:00''\<rparr>\<rparr>]"
    by (simp add: update_task_def load_task_def l save_task_def Let_def write_tasks_def
        update_git_metadata_def example_env_sel)
  show "map task_id (load_all_tasks example_env
     (fst (update_task example_env store_A_B ''m-a1b2c3''
             None None None None (Some 0) None))) = [''m-d4e5f6'']"
    by (simp add: load_all_tasks_def f Task_init_def generate_id_if_empty_def)
qed

section \<open>The claims\<close>

text \<open>
  C4. For every valid Task \<open>T\<close>, after \<open>save_task T\<close> the call \<open>load_task (task_id T)\<close> returns
  a Task that has the id, title, description, status, dependencies, blockers, tags and
  priority of \<open>T\<close> and its creation timestamp; only the branch, the commit hash and the
  update timestamp are the ones read at the save.
\<close>

theorem save_load_roundtrip:
  assumes "valid_task T"
  shows "\<exists>T'. load_task env (fst (save_task env st T)) (task_id T) = Some T' \<and>
           task_id T' = task_id T \<and> title T' = title T \<and>
           description T' = description T \<and> status T' = status T \<and>
           depends_on T' = depends_on T \<and> blocked_by T' = blocked_by T \<and>
           tags T' = tags T \<and> priority T' = priority T \<and>
           created_at (metadata T') = created_at (metadata T) \<and>
           branch (metadata T') = get_current_branch env \<and>
           commit_hash (metadata T') = get_current_commit env \<and>
           updated_at (metadata T') = isoformat_now env"
proof -
  have "load_task env (fst (save_task env st T)) (task_id T) =
        Some (update_git_metadata env T)"
    using find_task_find_and_update [of "load_all_tasks env st" "update_git_metadata env T"]
    by (simp add: load_task_def load_all_tasks_save [OF assms])
  then show ?thesis
    by (simp add: update_git_metadata_def)
qed

theorem save_load_roundtrip_witness:
  "valid_task (example_task ''m-1'' IN_PROGRESS [''m-0''] 7 ''2025-01-01T09:00:00'') \<and>
   (\<exists>T'. load_task example_env
            (fst (save_task example_env
                    (example_store [example_task ''m-0'' DONE [] 5 ''2024-12-31T09:00:00''])
                    (example_task ''m-1'' IN_PROGRESS [''m-0''] 7 ''2025-01-01T09:00:00'')))
            ''m-1'' = Some T' \<and>
      title T' = ''Task m-1'' \<and> status T' = IN_PROGRESS \<and> depends_on T' = [''m-0''] \<and>
      priority T' = 7 \<and> created_at (metadata T') = ''2025-01-01T09:00:00'' \<and>
      updated_at (metadata T') = ''2025-03-01T12:00:00'')"
  using save_load_roundtrip
    [of "example_task ''m-1'' IN_PROGRESS [''m-0''] 7 ''2025-01-01T09:00:00''" example_env
        "example_store [example_task ''m-0'' DONE [] 5 ''2024-12-31T09:00:00'']"]
  by (auto simp: valid_task_def example_task_def example_env_def)

text \<open>
  C10. For every id that no active task has, \<open>get_task_chain\<close> returns the empty list: it
  raises nothing, and the list does not hold a task with the requested id.
\<close>

theorem get_task_chain_unknown_id:
  assumes "i \<notin> task_id ` set (load_all_tasks env st)"
  shows "get_task_chain env st i = Inr []"
  using assms
  by (simp add: get_task_chain_def get_dependency_chain_def build_graph_def Let_def
      in_dict_build_task_dict)

theorem get_task_chain_unknown_id_witness:
  "''m-9'' \<notin> task_id ` set (load_all_tasks example_env
                    (example_store [example_task ''m-0'' DONE [] 5 ''2024-12-31T09:00:00''])) \<and>
   get_task_chain example_env
     (example_store [example_task ''m-0'' DONE [] 5 ''2024-12-31T09:00:00'']) ''m-9'' = Inr []"
  using get_task_chain_unknown_id
    [of "''m-9''" example_env
        "example_store [example_task ''m-0'' DONE [] 5 ''2024-12-31T09:00:00'']"]
  by (simp add: load_all_tasks_def example_store_def example_task_def Task_init_def
      generate_id_if_empty_def)

text \<open>
  C8 (as amended). \<open>save_task T\<close> rewrites the active log as the records that load from it,
  in their order, with \<open>T\<close> put in: when a loaded record has the id of \<open>T\<close>, the first such
  record is replaced at its index among the loaded records and every other loaded record
  is unchanged and keeps its place; when none has, \<open>T\<close> is appended after all of them. The
  archive log is not touched. (Lines that do not load are not written back.)
\<close>

theorem save_task_upsert:
  "(\<forall>n < length (load_all_tasks env st).
       task_id (load_all_tasks env st ! n) = task_id T \<and>
       (\<forall>j<n. task_id (load_all_tasks env st ! j) \<noteq> task_id T) \<longrightarrow>
       tasks_file (fst (save_task env st T)) =
         map Object ((load_all_tasks env st)[n := update_git_metadata env T])) \<and>
   ((\<forall>t \<in> set (load_all_tasks env st). task_id t \<noteq> task_id T) \<longrightarrow>
       tasks_file (fst (save_task env st T)) =
         map Object (load_all_tasks env st @ [update_git_metadata env T])) \<and>
   archive_file (fst (save_task env st T)) = archive_file st"
  using find_and_update_replace [of _ "load_all_tasks env st" "update_git_metadata env T"]
    find_and_update_append [of "load_all_tasks env st" "update_git_metadata env T"]
  by (simp add: tasks_file_save archive_file_save)

theorem save_task_upsert_witness:
  "tasks_file (fst (save_task example_env
      (example_store [example_task ''m-0'' DONE [] 5 ''2025-01-01T09:00:00'',
                      example_task ''m-1'' TODO [''m-0''] 5 ''2025-01-02T09:00:00'',
                      example_task ''m-2'' TODO [''m-1''] 5 ''2025-01-03T09:00:00''])
      (example_task ''m-1'' IN_PROGRESS [''m-0''] 8 ''2025-01-02T09:00:00''))) =
   [Object (example_task ''m-0'' DONE [] 5 ''2025-01-01T09:00:00''),
    Object (update_git_metadata example_env
              (example_task ''m-1'' IN_PROGRESS [''m-0''] 8 ''2025-01-02T09:00:00'')),
    Object (example_task ''m-2'' TODO [''m-1''] 5 ''2025-01-03T09:00:00'')] \<and>
   tasks_file (fst (save_task example_env
      (example_store [example_task ''m-0'' DONE [] 5 ''2025-01-01T09:00:00'',
                      example_task ''m-1'' TODO [''m-0''] 5 ''2025-01-02T09:00:00'',
                      example_task ''m-2'' TODO [''m-1''] 5 ''2025-01-03T09:00:00''])
      (example_task ''m-9'' TODO [] 3 ''2025-01-09T09:00:00''))) =
   [Object (example_task ''m-0'' DONE [] 5 ''2025-01-01T09:00:00''),
    Object (example_task ''m-1'' TODO [''m-0''] 5 ''2025-01-02T09:00:00''),
    Object (example_task ''m-2'' TODO [''m-1''] 5 ''2025-01-03T09:00:00''),
    Object (update_git_metadata example_env (example_task ''m-9'' TODO [] 3 ''2025-01-09T09:00:00''))]"
proof -
  let ?S = "example_store [example_task ''m-0'' DONE [] 5 ''2025-01-01T09:00:00'',
                      example_task ''m-1'' TODO [''m-0''] 5 ''2025-01-02T09:00:00'',
                      example_task ''m-2'' TODO [''m-1''] 5 ''2025-01-03T09:00:00'']"
  let ?T1 = "example_task ''m-1'' IN_PROGRESS [''m-0''] 8 ''2025-01-02T09:00:00''"
  let ?T9 = "example_task ''m-9'' TODO [] 3 ''2025-01-09T09:00:00''"
  have l: "load_all_tasks example_env ?S =
     [example_task ''m-0'' DONE [] 5 ''2025-01-01T09:00:00'',
      example_task ''m-1'' TODO [''m-0''] 5 ''2025-01-02T09:00:00'',
      example_task ''m-2'' TODO [''m-1''] 5 ''2025-01-03T09:00:00'']"
    by (rule load_example_store) (simp add: valid_task_def example_task_def)
  have i: "task_id (example_task i s d p c) = i" for i s d p c
    by (simp add: example_task_def)
  from save_task_upsert [of example_env ?S ?T1]
  have "Suc 0 < length (load_all_tasks example_env ?S) \<and>
       task_id (load_all_tasks example_env ?S ! Suc 0) = task_id ?T1 \<and>
       (\<forall>j<Suc 0. task_id (load_all_tasks example_env ?S ! j) \<noteq> task_id ?T1) \<longrightarrow>
       tasks_file (fst (save_task example_env ?S ?T1)) =
         map Object ((load_all_tasks example_env ?S)[Suc 0 := update_git_metadata example_env ?T1])"
    by blast
  then have replaced: "tasks_file (fst (save_task example_env ?S ?T1)) =
         map Object ((load_all_tasks example_env ?S)[Suc 0 := update_git_metadata example_env ?T1])"
    by (simp add: l i)
  from save_task_upsert [of example_env ?S ?T9]
  have "(\<forall>t \<in> set (load_all_tasks example_env ?S). task_id t \<noteq> task_id ?T9) \<longrightarrow>
       tasks_file (fst (save_task example_env ?S ?T9)) =
         map Object (load_all_tasks example_env ?S @ [update_git_metadata example_env ?T9])"
    by blast
  then have appended: "tasks_file (fst (save_task example_env ?S ?T9)) =
         map Object (load_all_tasks example_env ?S @ [update_git_metadata example_env ?T9])"
    by (simp add: l i)
  from replaced appended show ?thesis
    by (simp add: l)
qed

text \<open>
  The claim as first stated fails on a log that holds a record which does not load
  (priority 0): the record with the id of \<open>T\<close> stands at index 1, and after the save the
  log is one line long.
\<close>

theorem save_task_in_place_counterexample:
  "tasks_file (example_store [example_task ''m-0'' TODO [] 0 ''2025-01-01T09:00:00'',
                              example_task ''m-1'' TODO [] 5 ''2025-01-02T09:00:00'']) ! 1
     = Object (example_task ''m-1'' TODO [] 5 ''2025-01-02T09:00:00'') \<and>
   tasks_file (fst (save_task example_env
      (example_store [example_task ''m-0'' TODO [] 0 ''2025-01-01T09:00:00'',
                      example_task ''m-1'' TODO [] 5 ''2025-01-02T09:00:00''])
      (example_task ''m-1'' DONE [] 5 ''2025-01-02T09:00:00''))) =
   [Object (update_git_metadata example_env
              (example_task ''m-1'' DONE [] 5 ''2025-01-02T09:00:00''))] \<and>
   tasks_file (fst (save_task example_env
      (example_store [example_task ''m-0'' TODO [] 0 ''2025-01-01T09:00:00'',
                      example_task ''m-1'' TODO [] 5 ''2025-01-02T09:00:00''])
      (example_task ''m-1'' DONE [] 5 ''2025-01-02T09:00:00''))) \<noteq>
   (tasks_file (example_store [example_task ''m-0'' TODO [] 0 ''2025-01-01T09:00:00'',
                              example_task ''m-1'' TODO [] 5 ''2025-01-02T09:00:00'']))
     [1 := Object (update_git_metadata example_env
              (example_task ''m-1'' DONE [] 5 ''2025-01-02T09:00:00''))]"
  by (simp add: save_task_def Let_def write_tasks_def load_all_tasks_def example_store_def
      Task_init_def generate_id_if_empty_def example_task_def update_git_metadata_def)

text \<open>
  C9. When the task with the given id exists and has at least one dependent, the handler
  \<open>handle_delete_task\<close> answers \<^verbatim>\<open>success: false\<close> with an error message and the list of the
  dependents (id and title of each) and leaves the storage as it was, while
  \<open>MissionControl.delete_task\<close> on the same id returns true and the task is gone.
\<close>

theorem delete_guard:
  assumes "load_task env st i = Some t" and "get_dependents env st i \<noteq> []"
  shows "handle_delete_task env st i =
           (st, Refused False
                  (''Cannot delete task '' @ i @ '' - ''
                     @ str_nat (length (get_dependents env st i)) @ '' task(s) depend on it'')
                  (map (\<lambda>d. (task_id d, title d)) (get_dependents env st i))) \<and>
         snd (mc_delete_task env st i) \<and>
         load_task env (fst (mc_delete_task env st i)) i = None"
proof -
  from load_task_valid(2,3) [OF assms(1)] have "i \<in> task_id ` set (load_all_tasks env st)" by auto
  from delete_task_removes(1,2) [OF this] assms(2) show ?thesis
    by (simp add: handle_delete_task_def get_task_impact_def mc_delete_task_def Let_def)
qed

theorem delete_guard_witness:
  "load_task example_env
     (example_store [example_task ''m-1'' DONE [] 5 ''2025-01-01T09:00:00'',
                     example_task ''m-2'' IN_PROGRESS [''m-1''] 5 ''2025-01-02T09:00:00''])
     ''m-1'' = Some (example_task ''m-1'' DONE [] 5 ''2025-01-01T09:00:00'') \<and>
   get_dependents example_env
     (example_store [example_task ''m-1'' DONE [] 5 ''2025-01-01T09:00:00'',
                     example_task ''m-2'' IN_PROGRESS [''m-1''] 5 ''2025-01-02T09:00:00''])
     ''m-1'' = [example_task ''m-2'' IN_PROGRESS [''m-1''] 5 ''2025-01-02T09:00:00''] \<and>
   handle_delete_task example_env
     (example_store [example_task ''m-1'' DONE [] 5 ''2025-01-01T09:00:00'',
                     example_task ''m-2'' IN_PROGRESS [''m-1''] 5 ''2025-01-02T09:00:00''])
     ''m-1'' =
     (example_store [example_task ''m-1'' DONE [] 5 ''2025-01-01T09:00:00'',
                     example_task ''m-2'' IN_PROGRESS [''m-1''] 5 ''2025-01-02T09:00:00''],
      Refused False ''Cannot delete task m-1 - 1 task(s) depend on it''
        [(''m-2'', ''Task m-2'')]) \<and>
   snd (mc_delete_task example_env
     (example_store [example_task ''m-1'' DONE [] 5 ''2025-01-01T09:00:00'',
                     example_task ''m-2'' IN_PROGRESS [''m-1''] 5 ''2025-01-02T09:00:00''])
     ''m-1'') \<and>
   load_task example_env (fst (mc_delete_task example_env
     (example_store [example_task ''m-1'' DONE [] 5 ''2025-01-01T09:00:00'',
                     example_task ''m-2'' IN_PROGRESS [''m-1''] 5 ''2025-01-02T09:00:00''])
     ''m-1'')) ''m-1'' = None"
proof -
  let ?S = "example_store [example_task ''m-1'' DONE [] 5 ''2025-01-01T09:00:00'',
                     example_task ''m-2'' IN_PROGRESS [''m-1''] 5 ''2025-01-02T09:00:00'']"
  have i: "task_id (example_task i s d p c) = i" "depends_on (example_task i s d p c) = d"
    "title (example_task i s d p c) = ''Task '' @ i" for i s d p c
    by (simp_all add: example_task_def)
  have l: "load_task example_env ?S ''m-1'' = Some (example_task ''m-1'' DONE [] 5 ''2025-01-01T09:00:00'')"
    by (simp add: load_task_def load_example i)
  have d: "get_dependents example_env ?S ''m-1'' = [example_task ''m-2'' IN_PROGRESS [''m-1''] 5 ''2025-01-02T09:00:00'']"
    by (simp add: get_dependents_def build_graph_def Let_def load_example build_task_dict_def i)
  have n: "get_dependents example_env ?S ''m-1'' \<noteq> []"
    by (simp add: d)
  from delete_guard [OF l n] l d show ?thesis
    by (simp add: i str_nat.simps)
qed

text \<open>
  C3. Let \<open>update_task_status\<close> set an existing active task to \<open>done\<close> with
  \<open>auto_archive\<close>. Afterwards the task is absent from the active set exactly when
  \<open>get_dependents\<close> of its id was empty before the call. When it was empty, the record (as
  saved, with status \<open>done\<close>) is appended to the archive log; when it was not, the task is
  still active with status \<open>done\<close> and the archive log is unchanged.
\<close>

theorem auto_archive_rule:
  assumes "load_task env st i = Some t"
  shows "(load_task env (fst (update_task_status env st i DONE True)) i = None
            \<longleftrightarrow> get_dependents env st i = []) \<and>
         (get_dependents env st i = [] \<longrightarrow>
            archive_file (fst (update_task_status env st i DONE True)) =
              archive_file st @ [Object (update_git_metadata env (t\<lparr>status := DONE\<rparr>))]) \<and>
         (get_dependents env st i \<noteq> [] \<longrightarrow>
            load_task env (fst (update_task_status env st i DONE True)) i =
              Some (update_git_metadata env (t\<lparr>status := DONE\<rparr>)) \<and>
            status (update_git_metadata env (t\<lparr>status := DONE\<rparr>)) = DONE \<and>
            archive_file (fst (update_task_status env st i DONE True)) = archive_file st)"
proof -
  let ?t' = "update_git_metadata env (t\<lparr>status := DONE\<rparr>)"
  let ?st1 = "fst (save_task env st (t\<lparr>status := DONE\<rparr>))"
  from load_task_valid [OF assms] have v: "valid_task (t\<lparr>status := DONE\<rparr>)"
    and ti: "task_id t = i" by (simp_all add: valid_task_def)
  have l1: "load_all_tasks env ?st1 = find_and_update (load_all_tasks env st) ?t'"
    by (rule load_all_tasks_save [OF v])
  have f: "find_task (load_all_tasks env st) (task_id ?t') = Some t"
    using assms ti by (simp add: load_task_def)
  have "depends_on ?t' = depends_on t" by (simp add: update_git_metadata_def)
  from dep_view_find_and_update [OF f this]
  have deps: "get_dependents env ?st1 i = [] \<longleftrightarrow> get_dependents env st i = []"
    by (simp only: get_dependents_Nil l1)
  have lt: "load_task env ?st1 i = Some ?t'"
    using find_task_find_and_update [of "load_all_tasks env st" ?t'] ti
    by (simp add: load_task_def l1)
  have a1: "archive_file ?st1 = archive_file st" by (rule archive_file_save)
  have st: "status ?t' = DONE" by (simp add: update_git_metadata_def)
  have u: "fst (update_task_status env st i DONE True) =
        (if get_dependents env st i = [] then fst (archive_task env ?st1 i) else ?st1)"
    using assms deps
    by (cases "save_task env st (t\<lparr>status := DONE\<rparr>)")
       (simp add: update_task_status_def Let_def)
  show ?thesis
  proof (cases "get_dependents env st i = []")
    case True
    with u archive_task_present [OF lt] a1 show ?thesis by simp
  next
    case False
    with u lt a1 st show ?thesis by simp
  qed
qed

theorem auto_archive_rule_witness:
  "load_task example_env (example_store [example_task ''m-1'' TODO [] 5 ''2025-01-01T09:00:00'',
                     example_task ''m-2'' TODO [''m-1''] 5 ''2025-01-02T09:00:00'']) ''m-2'' = Some (example_task ''m-2'' TODO [''m-1''] 5 ''2025-01-02T09:00:00'') \<and>
   get_dependents example_env (example_store [example_task ''m-1'' TODO [] 5 ''2025-01-01T09:00:00'',
                     example_task ''m-2'' TODO [''m-1''] 5 ''2025-01-02T09:00:00'']) ''m-2'' = [] \<and>
   load_task example_env (fst (update_task_status example_env (example_store [example_task ''m-1'' TODO [] 5 ''2025-01-01T09:00:00'',
                     example_task ''m-2'' TODO [''m-1''] 5 ''2025-01-02T09:00:00'']) ''m-2'' DONE True)) ''m-2''
     = None \<and>
   archive_file (fst (update_task_status example_env (example_store [example_task ''m-1'' TODO [] 5 ''2025-01-01T09:00:00'',
                     example_task ''m-2'' TODO [''m-1''] 5 ''2025-01-02T09:00:00'']) ''m-2'' DONE True)) =
     [Object (update_git_metadata example_env ((example_task ''m-2'' TODO [''m-1''] 5 ''2025-01-02T09:00:00'')\<lparr>status := DONE\<rparr>))] \<and>
   load_task example_env (example_store [example_task ''m-1'' TODO [] 5 ''2025-01-01T09:00:00'',
                     example_task ''m-2'' TODO [''m-1''] 5 ''2025-01-02T09:00:00'']) ''m-1'' = Some (example_task ''m-1'' TODO [] 5 ''2025-01-01T09:00:00'') \<and>
   get_dependents example_env (example_store [example_task ''m-1'' TODO [] 5 ''2025-01-01T09:00:00'',
                     example_task ''m-2'' TODO [''m-1''] 5 ''2025-01-02T09:00:00'']) ''m-1'' = [(example_task ''m-2'' TODO [''m-1''] 5 ''2025-01-02T09:00:00'')] \<and>
   load_task example_env (fst (update_task_status example_env (example_store [example_task ''m-1'' TODO [] 5 ''2025-01-01T09:00:00'',
                     example_task ''m-2'' TODO [''m-1''] 5 ''2025-01-02T09:00:00'']) ''m-1'' DONE True)) ''m-1''
     = Some (update_git_metadata example_env ((example_task ''m-1'' TODO [] 5 ''2025-01-01T09:00:00'')\<lparr>status := DONE\<rparr>)) \<and>
   archive_file (fst (update_task_status example_env (example_store [example_task ''m-1'' TODO [] 5 ''2025-01-01T09:00:00'',
                     example_task ''m-2'' TODO [''m-1''] 5 ''2025-01-02T09:00:00'']) ''m-1'' DONE True)) = []"
proof -
  let ?S = "(example_store [example_task ''m-1'' TODO [] 5 ''2025-01-01T09:00:00'',
                     example_task ''m-2'' TODO [''m-1''] 5 ''2025-01-02T09:00:00''])"
  have i: "task_id (example_task i s d p c) = i" "depends_on (example_task i s d p c) = d"
    for i s d p c
    by (simp_all add: example_task_def)
  have l2: "load_task example_env ?S ''m-2'' = Some (example_task ''m-2'' TODO [''m-1''] 5 ''2025-01-02T09:00:00'')"
    by (simp add: load_task_def load_example2 i)
  have l1: "load_task example_env ?S ''m-1'' = Some (example_task ''m-1'' TODO [] 5 ''2025-01-01T09:00:00'')"
    by (simp add: load_task_def load_example2 i)
  have d2: "get_dependents example_env ?S ''m-2'' = []"
    by (simp add: get_dependents_def build_graph_def Let_def load_example2 build_task_dict_def i)
  have d1: "get_dependents example_env ?S ''m-1'' = [(example_task ''m-2'' TODO [''m-1''] 5 ''2025-01-02T09:00:00'')]"
    by (simp add: get_dependents_def build_graph_def Let_def load_example2 build_task_dict_def i)
  have a: "archive_file ?S = []" by (simp add: example_store_def)
  from auto_archive_rule [OF l2] auto_archive_rule [OF l1] l1 l2 d1 d2 a show ?thesis
    by simp
qed

text \<open>
  C1. In a store whose active tasks have pairwise different ids, \<open>list_ready_work\<close>
  returns exactly the active tasks (each once) whose status is \<open>todo\<close> and whose every
  \<open>depends_on\<close> id is the id of an active task with status \<open>done\<close>. So a \<open>todo\<close> task with
  a dependency id that no active task has is not returned.
\<close>

theorem ready_work_exact:
  assumes "distinct (map task_id (load_all_tasks env st))"
  shows "mset (list_ready_work env st) =
           mset (filter (\<lambda>t. status t = TODO \<and>
                    (\<forall>d \<in> set (depends_on t).
                       \<exists>u \<in> set (load_all_tasks env st). task_id u = d \<and> status u = DONE))
                  (load_all_tasks env st))"
proof -
  let ?ts = "load_all_tasks env st"
  let ?P = "\<lambda>t. status t = TODO \<and> list_all (dep_resolved (map (\<lambda>t. (task_id t, t)) ?ts)) (depends_on t)"
  let ?Q = "\<lambda>t. status t = TODO \<and>
                    (\<forall>d \<in> set (depends_on t). \<exists>u \<in> set ?ts. task_id u = d \<and> status u = DONE)"
  have dr: "dep_resolved (map (\<lambda>t. (task_id t, t)) ?ts) =
              (\<lambda>d. \<exists>u \<in> set ?ts. task_id u = d \<and> status u = DONE)"
    by (rule ext) (rule dep_resolved_distinct [OF assms])
  have PQ: "?P = ?Q"
    by (simp only: list_all_iff dr)
  have "get_ready_tasks env st = sort_key ready_key (filter ?P ?ts)"
    unfolding get_ready_tasks_eq build_task_dict_distinct [OF assms]
    by (simp only: map_snd_filter_keyed)
  then have "mset (get_ready_tasks env st) = mset (filter ?P ?ts)"
    by simp
  then show ?thesis
    unfolding list_ready_work_def PQ .
qed

text \<open>
  C5. The list that \<open>list_ready_work\<close> returns is sorted: priorities do not increase along
  it, and of two tasks with the same priority the one with the smaller \<open>created_at\<close> comes
  first.
\<close>

theorem ready_work_sorted:
  "sorted_wrt (\<lambda>a b. priority b \<le> priority a \<and>
                 (priority a = priority b \<longrightarrow>
                    created_at (metadata a) \<le> created_at (metadata b)))
     (list_ready_work env st)"
proof -
  have "sorted (map ready_key (list_ready_work env st))"
    unfolding list_ready_work_def get_ready_tasks_eq by (rule sorted_sort_key)
  then have "sorted_wrt (\<lambda>a b. ready_key a \<le> ready_key b) (list_ready_work env st)"
    by (simp only: sorted_map)
  then show ?thesis
    by (rule sorted_wrt_mono_rel [rotated]) (rule ready_key_le)
qed

theorem ready_work_exact_witness:
  "distinct (map task_id (load_all_tasks example_env
     (example_store [(example_task ''m-1'' DONE [] 5 ''2025-01-01T09:00:00''),
      (example_task ''m-2'' TODO [''m-1''] 5 ''2025-01-02T09:00:00''),
      (example_task ''m-3'' TODO [''m-ghost''] 9 ''2025-01-03T09:00:00''),
      (example_task ''m-4'' TODO [''m-2''] 5 ''2025-01-04T09:00:00'')]))) \<and>
   mset (list_ready_work example_env
     (example_store [(example_task ''m-1'' DONE [] 5 ''2025-01-01T09:00:00''),
      (example_task ''m-2'' TODO [''m-1''] 5 ''2025-01-02T09:00:00''),
      (example_task ''m-3'' TODO [''m-ghost''] 9 ''2025-01-03T09:00:00''),
      (example_task ''m-4'' TODO [''m-2''] 5 ''2025-01-04T09:00:00'')])) =
   {#(example_task ''m-2'' TODO [''m-1''] 5 ''2025-01-02T09:00:00'')#}"
proof -
  have l: "load_all_tasks example_env (example_store [(example_task ''m-1'' DONE [] 5 ''2025-01-01T09:00:00''),
      (example_task ''m-2'' TODO [''m-1''] 5 ''2025-01-02T09:00:00''),
      (example_task ''m-3'' TODO [''m-ghost''] 9 ''2025-01-03T09:00:00''),
      (example_task ''m-4'' TODO [''m-2''] 5 ''2025-01-04T09:00:00'')]) =
     [(example_task ''m-1'' DONE [] 5 ''2025-01-01T09:00:00''),
      (example_task ''m-2'' TODO [''m-1''] 5 ''2025-01-02T09:00:00''),
      (example_task ''m-3'' TODO [''m-ghost''] 9 ''2025-01-03T09:00:00''),
      (example_task ''m-4'' TODO [''m-2''] 5 ''2025-01-04T09:00:00'')]"
    by (rule load_example_store) simp
  have d: "distinct (map task_id (load_all_tasks example_env (example_store [(example_task ''m-1'' DONE [] 5 ''2025-01-01T09:00:00''),
      (example_task ''m-2'' TODO [''m-1''] 5 ''2025-01-02T09:00:00''),
      (example_task ''m-3'' TODO [''m-ghost''] 9 ''2025-01-03T09:00:00''),
      (example_task ''m-4'' TODO [''m-2''] 5 ''2025-01-04T09:00:00'')])))"
    by (simp add: l)
  from ready_work_exact [OF d] d show ?thesis
    by (simp add: l)
qed

theorem ready_work_sorted_witness:
  "sorted_wrt (\<lambda>a b. priority b \<le> priority a \<and>
                 (priority a = priority b \<longrightarrow>
                    created_at (metadata a) \<le> created_at (metadata b)))
     (list_ready_work example_env
        (example_store [(example_task ''m-a'' TODO [] 1 ''2025-01-01T09:00:00''),
      (example_task ''m-b'' TODO [] 10 ''2025-01-02T09:00:00''),
      (example_task ''m-c'' TODO [] 5 ''2025-01-04T09:00:00''),
      (example_task ''m-d'' TODO [] 5 ''2025-01-03T09:00:00'')])) \<and>
   list_ready_work example_env
        (example_store [(example_task ''m-a'' TODO [] 1 ''2025-01-01T09:00:00''),
      (example_task ''m-b'' TODO [] 10 ''2025-01-02T09:00:00''),
      (example_task ''m-c'' TODO [] 5 ''2025-01-04T09:00:00''),
      (example_task ''m-d'' TODO [] 5 ''2025-01-03T09:00:00'')]) =
     [(example_task ''m-b'' TODO [] 10 ''2025-01-02T09:00:00''), (example_task ''m-d'' TODO [] 5 ''2025-01-03T09:00:00''), (example_task ''m-c'' TODO [] 5 ''2025-01-04T09:00:00''), (example_task ''m-a'' TODO [] 1 ''2025-01-01T09:00:00'')]"
proof -
  have l: "load_all_tasks example_env (example_store [(example_task ''m-a'' TODO [] 1 ''2025-01-01T09:00:00''),
      (example_task ''m-b'' TODO [] 10 ''2025-01-02T09:00:00''),
      (example_task ''m-c'' TODO [] 5 ''2025-01-04T09:00:00''),
      (example_task ''m-d'' TODO [] 5 ''2025-01-03T09:00:00'')]) =
     [(example_task ''m-a'' TODO [] 1 ''2025-01-01T09:00:00''),
      (example_task ''m-b'' TODO [] 10 ''2025-01-02T09:00:00''),
      (example_task ''m-c'' TODO [] 5 ''2025-01-04T09:00:00''),
      (example_task ''m-d'' TODO [] 5 ''2025-01-03T09:00:00'')]"
    by (rule load_example_store) simp
  have r: "list_ready_work example_env (example_store [(example_task ''m-a'' TODO [] 1 ''2025-01-01T09:00:00''),
      (example_task ''m-b'' TODO [] 10 ''2025-01-02T09:00:00''),
      (example_task ''m-c'' TODO [] 5 ''2025-01-04T09:00:00''),
      (example_task ''m-d'' TODO [] 5 ''2025-01-03T09:00:00'')]) = [(example_task ''m-b'' TODO [] 10 ''2025-01-02T09:00:00''), (example_task ''m-d'' TODO [] 5 ''2025-01-03T09:00:00''), (example_task ''m-c'' TODO [] 5 ''2025-01-04T09:00:00''), (example_task ''m-a'' TODO [] 1 ''2025-01-01T09:00:00'')]"
    by (simp add: list_ready_work_def get_ready_tasks_eq l build_task_dict_def ready_key_def)
  from ready_work_sorted [of example_env "(example_store [(example_task ''m-a'' TODO [] 1 ''2025-01-01T09:00:00''),
      (example_task ''m-b'' TODO [] 10 ''2025-01-02T09:00:00''),
      (example_task ''m-c'' TODO [] 5 ''2025-01-04T09:00:00''),
      (example_task ''m-d'' TODO [] 5 ''2025-01-03T09:00:00'')])"] r show ?thesis
    by simp
qed

text \<open>
  C6. A ready task is returned as it was loaded: its \<open>blocked_by\<close> is the stored one, which
  the loop never resets. On a store whose single record is a \<open>todo\<close> task without
  dependencies that was persisted with \<open>blocked_by = [m-0]\<close>, \<open>list_ready_work\<close> returns
  that task with \<open>blocked_by = [m-0]\<close>, not with the empty list.
\<close>

theorem ready_task_keeps_stored_blocked_by:
  "list_ready_work example_env (example_store [((example_task ''m-1'' TODO [] 5 ''2025-01-01T09:00:00'')\<lparr>blocked_by := [''m-0'']\<rparr>)]) = [((example_task ''m-1'' TODO [] 5 ''2025-01-01T09:00:00'')\<lparr>blocked_by := [''m-0'']\<rparr>)] \<and> blocked_by ((example_task ''m-1'' TODO [] 5 ''2025-01-01T09:00:00'')\<lparr>blocked_by := [''m-0'']\<rparr>) = [''m-0'']"
proof -
  have l: "load_all_tasks example_env (example_store [((example_task ''m-1'' TODO [] 5 ''2025-01-01T09:00:00'')\<lparr>blocked_by := [''m-0'']\<rparr>)]) = [((example_task ''m-1'' TODO [] 5 ''2025-01-01T09:00:00'')\<lparr>blocked_by := [''m-0'']\<rparr>)]"
    by (rule load_example_store) (simp add: valid_task_def)
  show ?thesis
    by (simp add: list_ready_work_def get_ready_tasks_eq l build_task_dict_def)
qed

text \<open>
  C7. Let the iteration over a set yield exactly its members, let the active ids be
  pairwise different, let \<open>X\<close> be an active id, and let no dependency cycle be reachable
  from \<open>X\<close>. Then \<open>get_task_chain X\<close> returns a list that holds each active task reachable
  from \<open>X\<close> along \<open>depends_on\<close> exactly once and nothing else, that ends with the task \<open>X\<close>,
  and in which every active dependency of a listed task stands at an earlier index.
\<close>

theorem task_chain_topological:
  assumes it: "iterates_sets env"
    and d: "distinct (map task_id (load_all_tasks env st))"
    and X: "X \<in> task_id ` set (load_all_tasks env st)"
    and acyc: "\<forall>n. (X, n) \<in> (depends_edges env st)\<^sup>* \<longrightarrow> (n, n) \<notin> (depends_edges env st)\<^sup>+"
  shows "\<exists>chain. get_task_chain env st X = Inr chain \<and>
           distinct (map task_id chain) \<and>
           set chain = {t \<in> set (load_all_tasks env st).
                          (X, task_id t) \<in> (depends_edges env st)\<^sup>*} \<and>
           chain \<noteq> [] \<and> task_id (last chain) = X \<and>
           (\<forall>i < length chain. \<forall>dep \<in> set (depends_on (chain ! i)).
              dep \<in> task_id ` set (load_all_tasks env st) \<longrightarrow>
              (\<exists>j < i. task_id (chain ! j) = dep))"
proof -
  let ?ts = "load_all_tasks env st"
  let ?td = "build_task_dict ?ts"
  let ?adj = "build_adj env ?ts"
  let ?E = "depends_edges env st"
  have E: "dict_edges ?td ?adj = ?E" by (rule dict_edges_depends_edges [OF it d])
  have G1: "\<forall>k t. map_of ?td k = Some t \<longrightarrow> task_id t = k"
    using map_of_build_task_dict_distinct [OF d] by blast
  have inX: "in_dict X ?td" using X by (simp add: in_dict_build_task_dict)
  have inv0: "chain_inv ?td (dict_edges ?td ?adj) ({}, [])"
    by (simp add: chain_inv_def topo_listed_def)
  have pre0: "dfs_pre (dict_edges ?td ?adj) {X} ({}, [])"
    unfolding E dfs_pre_def using acyc by simp
  from dfs_chain_correct(1) [OF G1 inX inv0 pre0] obtain s' where
    run: "dfs_chain ?td ?adj X ({}, []) = Inr s'"
    and post: "dfs_post ?td ?E {X} ({}, []) s'"
    and lst: "snd s' \<noteq> [] \<and> task_id (last (snd s')) = X"
    unfolding E by auto
  obtain V chain where s': "s' = (V, chain)" by (cases s')
  from post have ids: "task_id ` set chain = ?E\<^sup>* `` {X}"
    and inv: "chain_inv ?td ?E (V, chain)"
    unfolding dfs_post_def s' fst_conv snd_conv by auto
  from inv have dist: "distinct (map task_id chain)"
    and look: "\<forall>t \<in> set chain. map_of ?td (task_id t) = Some t"
    and topo: "topo_listed ?E (map task_id chain)"
    by (simp_all add: chain_inv_def)
  have mem: "t \<in> set ?ts" if "t \<in> set chain" for t
    using look that map_of_build_task_dict_distinct [OF d, of "task_id t" t] by blast
  have "get_task_chain env st X = Inr chain"
    using inX run s'
    by (simp add: get_task_chain_def get_dependency_chain_def build_graph_def Let_def)
  moreover have "set chain = {t \<in> set ?ts. (X, task_id t) \<in> ?E\<^sup>*}"
  proof (intro set_eqI iffI)
    fix t assume t: "t \<in> set chain"
    then have "task_id t \<in> ?E\<^sup>* `` {X}" using ids by blast
    with mem [OF t] show "t \<in> {t \<in> set ?ts. (X, task_id t) \<in> ?E\<^sup>*}" by simp
  next
    fix t assume "t \<in> {t \<in> set ?ts. (X, task_id t) \<in> ?E\<^sup>*}"
    then have t: "t \<in> set ?ts" "task_id t \<in> ?E\<^sup>* `` {X}" by simp_all
    with ids have "task_id t \<in> task_id ` set chain" by simp
    then obtain u where u: "u \<in> set chain" "task_id u = task_id t"
      by (auto simp: image_iff)
    from d have "inj_on task_id (set ?ts)" by (simp only: distinct_map)
    from inj_onD [OF this u(2) mem [OF u(1)] t(1)] u(1) show "t \<in> set chain" by simp
  qed
  moreover have "\<forall>i < length chain. \<forall>dep \<in> set (depends_on (chain ! i)).
              dep \<in> task_id ` set ?ts \<longrightarrow> (\<exists>j < i. task_id (chain ! j) = dep)"
  proof (intro allI impI ballI)
    fix i dep
    assume i: "i < length chain" and dep: "dep \<in> set (depends_on (chain ! i))"
      and act: "dep \<in> task_id ` set ?ts"
    from i have "chain ! i \<in> set ?ts" by (intro mem) simp
    with dep act have "(task_id (chain ! i), dep) \<in> ?E"
      unfolding depends_edges_def by blast
    with topo i obtain j where "j < i" "map task_id chain ! j = dep"
      unfolding topo_listed_def by force
    with i show "\<exists>j < i. task_id (chain ! j) = dep" by (auto intro!: exI [of _ j])
  qed
  ultimately show ?thesis using dist lst s' by auto
qed

theorem task_chain_topological_witness:
  "iterates_sets example_env \<and>
   distinct (map task_id (load_all_tasks example_env (example_store
      [(example_task ''m-1'' DONE [] 5 ''2025-01-01T09:00:00''),
       (example_task ''m-2'' TODO [''m-1''] 5 ''2025-01-02T09:00:00''),
       (example_task ''m-3'' TODO [''m-1'', ''m-2'', ''m-ghost''] 5 ''2025-01-03T09:00:00'')]))) \<and>
   ''m-3'' \<in> task_id ` set (load_all_tasks example_env (example_store
      [(example_task ''m-1'' DONE [] 5 ''2025-01-01T09:00:00''),
       (example_task ''m-2'' TODO [''m-1''] 5 ''2025-01-02T09:00:00''),
       (example_task ''m-3'' TODO [''m-1'', ''m-2'', ''m-ghost''] 5 ''2025-01-03T09:00:00'')])) \<and>
   acyclic (depends_edges example_env (example_store
      [(example_task ''m-1'' DONE [] 5 ''2025-01-01T09:00:00''),
       (example_task ''m-2'' TODO [''m-1''] 5 ''2025-01-02T09:00:00''),
       (example_task ''m-3'' TODO [''m-1'', ''m-2'', ''m-ghost''] 5 ''2025-01-03T09:00:00'')])) \<and>
   get_task_chain example_env (example_store
      [(example_task ''m-1'' DONE [] 5 ''2025-01-01T09:00:00''),
       (example_task ''m-2'' TODO [''m-1''] 5 ''2025-01-02T09:00:00''),
       (example_task ''m-3'' TODO [''m-1'', ''m-2'', ''m-ghost''] 5 ''2025-01-03T09:00:00'')]) ''m-3'' = Inr [(example_task ''m-1'' DONE [] 5 ''2025-01-01T09:00:00''),
       (example_task ''m-2'' TODO [''m-1''] 5 ''2025-01-02T09:00:00''),
       (example_task ''m-3'' TODO [''m-1'', ''m-2'', ''m-ghost''] 5 ''2025-01-03T09:00:00'')] \<and>
   (\<exists>chain. get_task_chain example_env (example_store
      [(example_task ''m-1'' DONE [] 5 ''2025-01-01T09:00:00''),
       (example_task ''m-2'' TODO [''m-1''] 5 ''2025-01-02T09:00:00''),
       (example_task ''m-3'' TODO [''m-1'', ''m-2'', ''m-ghost''] 5 ''2025-01-03T09:00:00'')]) ''m-3'' = Inr chain \<and>
      distinct (map task_id chain) \<and>
      set chain = {t \<in> set (load_all_tasks example_env (example_store
      [(example_task ''m-1'' DONE [] 5 ''2025-01-01T09:00:00''),
       (example_task ''m-2'' TODO [''m-1''] 5 ''2025-01-02T09:00:00''),
       (example_task ''m-3'' TODO [''m-1'', ''m-2'', ''m-ghost''] 5 ''2025-01-03T09:00:00'')])).
                     (''m-3'', task_id t) \<in> (depends_edges example_env (example_store
      [(example_task ''m-1'' DONE [] 5 ''2025-01-01T09:00:00''),
       (example_task ''m-2'' TODO [''m-1''] 5 ''2025-01-02T09:00:00''),
       (example_task ''m-3'' TODO [''m-1'', ''m-2'', ''m-ghost''] 5 ''2025-01-03T09:00:00'')]))\<^sup>*} \<and>
      chain \<noteq> [] \<and> task_id (last chain) = ''m-3'' \<and>
      (\<forall>i < length chain. \<forall>dep \<in> set (depends_on (chain ! i)).
         dep \<in> task_id ` set (load_all_tasks example_env (example_store
      [(example_task ''m-1'' DONE [] 5 ''2025-01-01T09:00:00''),
       (example_task ''m-2'' TODO [''m-1''] 5 ''2025-01-02T09:00:00''),
       (example_task ''m-3'' TODO [''m-1'', ''m-2'', ''m-ghost''] 5 ''2025-01-03T09:00:00'')])) \<longrightarrow>
         (\<exists>j < i. task_id (chain ! j) = dep)))"
proof -
  let ?S = "(example_store
      [(example_task ''m-1'' DONE [] 5 ''2025-01-01T09:00:00''),
       (example_task ''m-2'' TODO [''m-1''] 5 ''2025-01-02T09:00:00''),
       (example_task ''m-3'' TODO [''m-1'', ''m-2'', ''m-ghost''] 5 ''2025-01-03T09:00:00'')])"
  let ?E = "depends_edges example_env ?S"
  have l: "load_all_tasks example_env ?S = [(example_task ''m-1'' DONE [] 5 ''2025-01-01T09:00:00''),
       (example_task ''m-2'' TODO [''m-1''] 5 ''2025-01-02T09:00:00''),
       (example_task ''m-3'' TODO [''m-1'', ''m-2'', ''m-ghost''] 5 ''2025-01-03T09:00:00'')]"
    by (rule load_example_store) simp
  have d: "distinct (map task_id (load_all_tasks example_env ?S))"
    by (simp add: l)
  have x: "''m-3'' \<in> task_id ` set (load_all_tasks example_env ?S)"
    by (simp add: l)
  let ?rank = "\<lambda>n. if n = ''m-3'' then 2 else if n = ''m-2'' then 1 else (0::nat)"
  have "?E\<inverse> \<subseteq> measure ?rank"
    by (auto simp: depends_edges_def l)
  then have "wf (?E\<inverse>)" by (rule wf_subset [OF wf_measure])
  then have "acyclic (?E\<inverse>)" by (rule wf_acyclic)
  then have a: "acyclic ?E" by simp
  then have a': "\<forall>n. (''m-3'', n) \<in> ?E\<^sup>* \<longrightarrow> (n, n) \<notin> ?E\<^sup>+"
    by (simp add: acyclic_def)
  have r: "get_task_chain example_env ?S ''m-3'' = Inr [(example_task ''m-1'' DONE [] 5 ''2025-01-01T09:00:00''),
       (example_task ''m-2'' TODO [''m-1''] 5 ''2025-01-02T09:00:00''),
       (example_task ''m-3'' TODO [''m-1'', ''m-2'', ''m-ghost''] 5 ''2025-01-03T09:00:00'')]"
    by (simp add: get_task_chain_def get_dependency_chain_def build_graph_def Let_def l
        build_task_dict_def build_adj_def in_dict_def adj_get_def set_iteration_example)
  from task_chain_topological [OF iterates_sets_example d x a'] iterates_sets_example d x a r
  show ?thesis by blast
qed

text \<open>
  C2. \<open>check_consistency\<close> does not return a pair on every store. Take two active tasks,
  \<open>m-1\<close> that depends on itself and \<open>m-2\<close> that depends on \<open>m-1\<close>. The traversal from \<open>m-1\<close>
  records the cycle and returns at once, so \<open>m-1\<close> stays gray; the traversal from \<open>m-2\<close>
  then meets the gray \<open>m-1\<close>, which is not on its own path, and \<^verbatim>\<open>path.index\<close> raises
  \<open>ValueError\<close>.
\<close>

theorem check_consistency_raises:
  "check_consistency example_env
     (example_store [example_task ''m-1'' TODO [''m-1''] 5 ''2025-01-01T09:00:00'',
                     example_task ''m-2'' TODO [''m-1''] 5 ''2025-01-02T09:00:00''])
   = Inl ValueError"
proof -
  have l: "load_all_tasks example_env
     (example_store [example_task ''m-1'' TODO [''m-1''] 5 ''2025-01-01T09:00:00'',
                     example_task ''m-2'' TODO [''m-1''] 5 ''2025-01-02T09:00:00'']) =
     [example_task ''m-1'' TODO [''m-1''] 5 ''2025-01-01T09:00:00'',
      example_task ''m-2'' TODO [''m-1''] 5 ''2025-01-02T09:00:00'']"
    by (rule load_example_store) simp
  show ?thesis
    by (simp add: check_consistency_def build_graph_def Let_def l build_task_dict_def
        build_adj_def adj_get_def set_iteration_example)
qed



end
